theory Spec2Isabelle
  imports Main
begin

section \<open>Strings\<close>

text \<open>
  A Python \<open>str\<close> is a sequence of code points. The model is \<open>string\<close>, one \<open>char\<close> per
  code point, which covers the code points 0..255. On these, \<open>str.isdigit\<close> holds for the
  decimal digits \<open>0\<close>..\<open>9\<close> and for the superscript digits U+00B2, U+00B3 and U+00B9 (digits
  that are not decimal characters), while the regular expression class \<open>\d\<close> and \<open>int()\<close>
  take the decimal digits only: in all of Unicode every decimal digit of any script, which
  among the code points of the model are \<open>0\<close>..\<open>9\<close>.
\<close>

definition is_decimal :: "char \<Rightarrow> bool" where
  "is_decimal c \<longleftrightarrow> (48::nat) \<le> of_char c \<and> of_char c \<le> (57::nat)"

definition is_nonzero :: "char \<Rightarrow> bool" where
  \<comment> \<open>the character class \<open>[1-9]\<close>\<close>
  "is_nonzero c \<longleftrightarrow> (49::nat) \<le> of_char c \<and> of_char c \<le> (57::nat)"

definition re_digit :: "char \<Rightarrow> bool" where
  \<comment> \<open>the class \<open>\d\<close> of a str pattern: the Unicode decimal digits, which among the code
      points of the model are \<open>0\<close>..\<open>9\<close>\<close>
  "re_digit c \<longleftrightarrow> is_decimal c"

definition isdigit_char :: "char \<Rightarrow> bool" where
  "isdigit_char c \<longleftrightarrow> is_decimal c \<or> c = CHR 0xB2 \<or> c = CHR 0xB3 \<or> c = CHR 0xB9"

definition isdigit :: "string \<Rightarrow> bool" where
  \<comment> \<open>\<open>str.isdigit\<close>: all characters are digits and there is at least one character\<close>
  "isdigit s \<longleftrightarrow> s \<noteq> [] \<and> list_all isdigit_char s"

definition digit_val :: "char \<Rightarrow> nat" where
  "digit_val c = of_char c - 48"

definition digit_char :: "nat \<Rightarrow> char" where
  "digit_char n = char_of (n + 48)"

definition int_of_digits :: "string \<Rightarrow> nat" where
  "int_of_digits s = foldl (\<lambda>acc c. 10 * acc + digit_val c) 0 s"

definition py_int :: "string \<Rightarrow> nat" where
  \<comment> \<open>\<open>int(s)\<close> on a group matched by the format's regular expression: decimal digits
      (\<open>int\<close> reads every Unicode decimal digit, as \<open>\d\<close> does), after leading blanks, which
      \<open>int\<close> strips\<close>
  "py_int s = int_of_digits (dropWhile (\<lambda>c. c = CHR '' '') s)"

fun decimal :: "nat \<Rightarrow> string" where
  \<comment> \<open>a number written in decimal, without leading zeros\<close>
  "decimal n = (if n < 10 then [digit_char n] else decimal (n div 10) @ [digit_char (n mod 10)])"

declare decimal.simps [simp del]

definition pad2 :: "nat \<Rightarrow> string" where
  \<comment> \<open>\<open>%d\<close> and \<open>%m\<close> of strftime: two digits, zero-filled\<close>
  "pad2 n = [digit_char (n div 10 mod 10), digit_char (n mod 10)]"

definition pad4 :: "nat \<Rightarrow> string" where
  \<comment> \<open>four digits, zero-filled\<close>
  "pad4 n = [digit_char (n div 1000 mod 10), digit_char (n div 100 mod 10),
             digit_char (n div 10 mod 10), digit_char (n mod 10)]"


section \<open>Errors\<close>

text \<open>
  Every exception of the program is a value. The program itself raises \<open>ValueError\<close> with
  three messages, which are the three error kinds of the specification; the date library
  raises \<open>ValueError\<close> (an impossible date) and \<open>OverflowError\<close> (a date after 31.12.9999).
\<close>

datatype error =
    InvalidPhone  \<comment> \<open>\<open>ValueError("Phone number must be 10 digits.")\<close>\<close>
  | InvalidBirthday  \<comment> \<open>\<open>ValueError("Invalid date format. Use DD.MM.YYYY")\<close>\<close>
  | PhoneNotFound string  \<comment> \<open>\<open>ValueError(f"Phone {old_phone} not found.")\<close>\<close>
  | LibValueError  \<comment> \<open>a \<open>ValueError\<close> of \<open>datetime\<close>: no such date, or no match in strptime\<close>
  | LibOverflowError  \<comment> \<open>\<open>OverflowError("date value out of range")\<close>\<close>


section \<open>Calendar dates of the datetime library\<close>

record date =
  year :: nat
  month :: nat
  day :: nat

definition is_leap :: "nat \<Rightarrow> bool" where
  "is_leap y \<longleftrightarrow> y mod 4 = 0 \<and> (y mod 100 \<noteq> 0 \<or> y mod 400 = 0)"

definition days_in_month :: "nat \<Rightarrow> nat \<Rightarrow> nat" where
  "days_in_month y m =
     (if m = 2 then (if is_leap y then 29 else 28)
      else if m = 4 \<or> m = 6 \<or> m = 9 \<or> m = 11 then 30 else 31)"

definition days_before_year :: "nat \<Rightarrow> nat" where
  \<comment> \<open>number of days before January 1st of year \<open>y\<close>\<close>
  "days_before_year y =
     (y - 1) * 365 + (y - 1) div 4 - (y - 1) div 100 + (y - 1) div 400"

fun days_before_month :: "nat \<Rightarrow> nat \<Rightarrow> nat" where
  \<comment> \<open>number of days in year \<open>y\<close> before the first day of month \<open>m\<close>\<close>
  "days_before_month y 0 = 0"
| "days_before_month y (Suc 0) = 0"
| "days_before_month y (Suc m) = days_before_month y m + days_in_month y m"

definition toordinal :: "date \<Rightarrow> nat" where
  \<comment> \<open>01.01.0001 has ordinal 1\<close>
  "toordinal d = days_before_year (year d) + days_before_month (year d) (month d) + day d"

definition MAXORDINAL :: nat where
  \<comment> \<open>the ordinal of 31.12.9999\<close>
  "MAXORDINAL = 3652059"

definition weekday :: "date \<Rightarrow> nat" where
  \<comment> \<open>Monday is 0, Saturday is 5, Sunday is 6\<close>
  "weekday d = (toordinal d + 6) mod 7"

definition date_less :: "date \<Rightarrow> date \<Rightarrow> bool" where
  \<comment> \<open>\<open>a < b\<close> on dates compares (year, month, day)\<close>
  "date_less a b \<longleftrightarrow>
     year a < year b \<or> (year a = year b \<and> (month a < month b \<or> (month a = month b \<and> day a < day b)))"

definition valid_date :: "date \<Rightarrow> bool" where
  "valid_date d \<longleftrightarrow>
     1 \<le> year d \<and> year d \<le> 9999 \<and> 1 \<le> month d \<and> month d \<le> 12 \<and>
     1 \<le> day d \<and> day d \<le> days_in_month (year d) (month d)"

definition date_new :: "nat \<Rightarrow> nat \<Rightarrow> nat \<Rightarrow> error + date" where
  \<comment> \<open>the constructor \<open>date(y, m, d)\<close>, which checks its fields\<close>
  "date_new y m d =
     (if \<not> (1 \<le> y \<and> y \<le> 9999) then Inl LibValueError
      else if \<not> (1 \<le> m \<and> m \<le> 12) then Inl LibValueError
      else if \<not> (1 \<le> d \<and> d \<le> days_in_month y m) then Inl LibValueError
      else Inr \<lparr>year = y, month = m, day = d\<rparr>)"

definition replace_year :: "date \<Rightarrow> nat \<Rightarrow> error + date" where
  \<comment> \<open>\<open>d.replace(year=y)\<close> builds a new date from the new year and the old month and day\<close>
  "replace_year d y = date_new y (month d) (day d)"

definition next_day :: "date \<Rightarrow> date" where
  "next_day d =
     (if day d < days_in_month (year d) (month d) then d\<lparr>day := day d + 1\<rparr>
      else if month d < 12 then \<lparr>year = year d, month = month d + 1, day = 1\<rparr>
      else \<lparr>year = year d + 1, month = 1, day = 1\<rparr>)"

fun add_days :: "date \<Rightarrow> nat \<Rightarrow> date" where
  "add_days d 0 = d"
| "add_days d (Suc k) = add_days (next_day d) k"

definition date_add :: "date \<Rightarrow> nat \<Rightarrow> error + date" where
  \<comment> \<open>\<open>d + timedelta(days=k)\<close> for \<open>k \<ge> 0\<close>: the date \<open>k\<close> days later, or OverflowError
      past the last date\<close>
  "date_add d k =
     (if toordinal d + k \<le> MAXORDINAL then Inr (add_days d k) else Inl LibOverflowError)"

text \<open>
  \<open>strftime\<close> hands its format to the C library of the platform. All of them write \<open>%d\<close>
  and \<open>%m\<close> with two digits; \<open>%Y\<close> is documented as the year in four digits (0001 .. 9999),
  which is what most C libraries write, but glibc writes the year as a plain number, so that
  on Linux \<open>datetime(999, 1, 1).strftime("%Y")\<close> is \<open>999\<close>. Which of the two the
  platform does is a parameter of everything that formats a date.
\<close>

datatype libc =
    Plain_Year  \<comment> \<open>glibc: \<open>%Y\<close> is the year without leading zeros\<close>
  | Filled_Year  \<comment> \<open>\<open>%Y\<close> is the year in four digits, zero-filled\<close>

definition format_Y :: "libc \<Rightarrow> nat \<Rightarrow> string" where
  "format_Y libc y = (case libc of Plain_Year \<Rightarrow> decimal y | Filled_Year \<Rightarrow> pad4 y)"

definition strftime :: "libc \<Rightarrow> date \<Rightarrow> string" where
  \<comment> \<open>\<open>d.strftime("%d.%m.%Y")\<close>\<close>
  "strftime libc d = pad2 (day d) @ ''.'' @ pad2 (month d) @ ''.'' @ format_Y libc (year d)"


section \<open>Parsing a date: strptime with the format \<open>%d.%m.%Y\<close>\<close>

text \<open>
  \<open>datetime.strptime\<close> turns the format into the regular expression
  \<^verbatim>\<open>(?P<d>3[0-1]|[1-2]\d|0[1-9]|[1-9]| [1-9])\.(?P<m>1[0-2]|0[1-9]|[1-9])\.(?P<Y>\d\d\d\d)\<close>,
  matches it at the start of the string, fails when text remains after the match, converts
  the three groups with \<open>int\<close> and builds the date, which fails for a date that does not
  exist. A matcher returns, in the order in which the alternatives are tried, every way to
  match a prefix: the matched text and the rest.
\<close>

fun re_seq2 :: "(char \<Rightarrow> bool) \<Rightarrow> (char \<Rightarrow> bool) \<Rightarrow> string \<Rightarrow> (string \<times> string) list" where
  "re_seq2 p q (a # b # r) = (if p a \<and> q b then [([a, b], r)] else [])"
| "re_seq2 p q _ = []"

fun re_seq1 :: "(char \<Rightarrow> bool) \<Rightarrow> string \<Rightarrow> (string \<times> string) list" where
  "re_seq1 p (a # r) = (if p a then [([a], r)] else [])"
| "re_seq1 p _ = []"

definition re_d :: "string \<Rightarrow> (string \<times> string) list" where
  \<comment> \<open>\<^verbatim>\<open>3[0-1]|[1-2]\d|0[1-9]|[1-9]| [1-9]\<close>\<close>
  "re_d s =
     re_seq2 (\<lambda>c. c = CHR ''3'') (\<lambda>c. c = CHR ''0'' \<or> c = CHR ''1'') s @
     re_seq2 (\<lambda>c. c = CHR ''1'' \<or> c = CHR ''2'') re_digit s @
     re_seq2 (\<lambda>c. c = CHR ''0'') is_nonzero s @
     re_seq1 is_nonzero s @
     re_seq2 (\<lambda>c. c = CHR '' '') is_nonzero s"

definition re_m :: "string \<Rightarrow> (string \<times> string) list" where
  \<comment> \<open>\<^verbatim>\<open>1[0-2]|0[1-9]|[1-9]\<close>\<close>
  "re_m s =
     re_seq2 (\<lambda>c. c = CHR ''1'') (\<lambda>c. c = CHR ''0'' \<or> c = CHR ''1'' \<or> c = CHR ''2'') s @
     re_seq2 (\<lambda>c. c = CHR ''0'') is_nonzero s @
     re_seq1 is_nonzero s"

fun re_Y :: "string \<Rightarrow> (string \<times> string) list" where
  \<comment> \<open>\<^verbatim>\<open>\d\d\d\d\<close>\<close>
  "re_Y (a # b # c # d # r) =
     (if re_digit a \<and> re_digit b \<and> re_digit c \<and> re_digit d then [([a, b, c, d], r)] else [])"
| "re_Y _ = []"

fun re_dot :: "string \<Rightarrow> string list" where
  \<comment> \<open>the literal dot; only the rest is returned\<close>
  "re_dot (c # r) = (if c = CHR ''.'' then [r] else [])"
| "re_dot [] = []"

definition regex_match :: "string \<Rightarrow> (string \<times> string \<times> string \<times> string) list" where
  \<comment> \<open>all matches of the whole expression in backtracking order: the groups d, m, Y and
      the text after the match; the first one is the match that \<open>re.match\<close> returns\<close>
  "regex_match s =
     [(d, m, y, rest).
        (d, r1) \<leftarrow> re_d s, r2 \<leftarrow> re_dot r1, (m, r3) \<leftarrow> re_m r2, r4 \<leftarrow> re_dot r3,
        (y, rest) \<leftarrow> re_Y r4]"

definition strptime :: "string \<Rightarrow> error + date" where
  "strptime s =
     (case regex_match s of
        [] \<Rightarrow> Inl LibValueError
      | (d, m, y, rest) # _ \<Rightarrow>
          if rest \<noteq> [] then Inl LibValueError
          else date_new (py_int y) (py_int m) (py_int d))"


section \<open>Fields\<close>

text \<open>
  A \<open>Field\<close> object holds one attribute, its value; a field is modelled by that value: a
  \<open>Name\<close> and a \<open>Phone\<close> by a string, a \<open>Birthday\<close> by the date that strptime returned (its
  time of day is always midnight, and only its date is ever read).
\<close>

definition validate :: "string \<Rightarrow> bool" where
  \<comment> \<open>\<open>Phone.validate\<close>\<close>
  "validate v \<longleftrightarrow> length v = 10 \<and> isdigit v"

definition Phone_init :: "string \<Rightarrow> error + string" where
  "Phone_init v = (if \<not> validate v then Inl InvalidPhone else Inr v)"

definition Birthday_init :: "string \<Rightarrow> error + date" where
  \<comment> \<open>every ValueError of strptime is caught and raised again as the program's own\<close>
  "Birthday_init v = (case strptime v of Inl e \<Rightarrow> Inl InvalidBirthday | Inr d \<Rightarrow> Inr d)"

definition Birthday_str :: "libc \<Rightarrow> date \<Rightarrow> string" where
  \<comment> \<open>\<open>Birthday.__str__\<close>\<close>
  "Birthday_str libc b = strftime libc b"


section \<open>Record\<close>

text \<open>
  A method mutates its object and either returns or raises. It is modelled as a function
  from the object before the call to the outcome (\<open>Inr ()\<close> for a return, \<open>Inl e\<close> for an
  exception) and the object after the call: what an exception leaves behind is part of the
  result, not assumed.
\<close>

record Record =
  name :: string
  phones :: "string list"
  birthday :: "date option"

definition Record_init :: "string \<Rightarrow> Record" where
  "Record_init n = \<lparr>name = n, phones = [], birthday = None\<rparr>"

definition add_phone :: "string \<Rightarrow> Record \<Rightarrow> (error + unit) \<times> Record" where
  "add_phone phone self =
     (case Phone_init phone of
        Inl e \<Rightarrow> (Inl e, self)
      | Inr p \<Rightarrow> (Inr (), self\<lparr>phones := phones self @ [p]\<rparr>))"

definition remove_phone :: "string \<Rightarrow> Record \<Rightarrow> (error + unit) \<times> Record" where
  "remove_phone phone self = (Inr (), self\<lparr>phones := filter (\<lambda>p. p \<noteq> phone) (phones self)\<rparr>)"

fun edit_phone_loop :: "string \<Rightarrow> string \<Rightarrow> string list \<Rightarrow> (error + unit) \<times> string list" where
  \<comment> \<open>the \<open>for\<close> loop of \<open>edit_phone\<close> over the phones that are left, and the list after it\<close>
  "edit_phone_loop old_phone new_phone [] = (Inl (PhoneNotFound old_phone), [])"
| "edit_phone_loop old_phone new_phone (p # ps) =
     (if p = old_phone then
        (if \<not> validate new_phone then (Inl InvalidPhone, p # ps)
         else (Inr (), new_phone # ps))
      else (case edit_phone_loop old_phone new_phone ps of (res, ps') \<Rightarrow> (res, p # ps')))"

definition edit_phone :: "string \<Rightarrow> string \<Rightarrow> Record \<Rightarrow> (error + unit) \<times> Record" where
  "edit_phone old_phone new_phone self =
     (case edit_phone_loop old_phone new_phone (phones self) of
        (res, ps') \<Rightarrow> (res, self\<lparr>phones := ps'\<rparr>))"

definition find_phone :: "string \<Rightarrow> Record \<Rightarrow> string option" where
  "find_phone phone self = find (\<lambda>p. p = phone) (phones self)"

definition add_birthday :: "string \<Rightarrow> Record \<Rightarrow> (error + unit) \<times> Record" where
  "add_birthday b self =
     (case Birthday_init b of
        Inl e \<Rightarrow> (Inl e, self)
      | Inr d \<Rightarrow> (Inr (), self\<lparr>birthday := Some d\<rparr>))"


section \<open>AddressBook\<close>

text \<open>
  The book is a dictionary from names to records. A Python dictionary keeps its keys in
  insertion order, and \<open>get_upcoming_birthdays\<close> walks the values in that order, so the
  book is an association list.
\<close>

type_synonym AddressBook = "(string \<times> Record) list"

fun dict_set :: "string \<Rightarrow> Record \<Rightarrow> AddressBook \<Rightarrow> AddressBook" where
  \<comment> \<open>\<open>data[k] = v\<close>: a present key keeps its place, a new key goes last\<close>
  "dict_set k v [] = [(k, v)]"
| "dict_set k v ((k', v') # kvs) =
     (if k' = k then (k, v) # kvs else (k', v') # dict_set k v kvs)"

definition add_record :: "Record \<Rightarrow> AddressBook \<Rightarrow> (error + unit) \<times> AddressBook" where
  "add_record r book = (Inr (), dict_set (name r) r book)"

definition find_record :: "string \<Rightarrow> AddressBook \<Rightarrow> Record option" where
  \<comment> \<open>\<open>AddressBook.find\<close>\<close>
  "find_record n book = map_of book n"

definition delete :: "string \<Rightarrow> AddressBook \<Rightarrow> (error + unit) \<times> AddressBook" where
  "delete n book =
     (if n \<in> fst ` set book then (Inr (), filter (\<lambda>kv. fst kv \<noteq> n) book)
      else (Inr (), book))"

record entry =
  entry_name :: string
  congratulation_date :: string

definition upcoming_step :: "libc \<Rightarrow> date \<Rightarrow> Record \<Rightarrow> error + entry option" where
  \<comment> \<open>the body of the loop of \<open>get_upcoming_birthdays\<close> for one record: an exception, nothing
      to append, or the entry to append\<close>
  "upcoming_step libc today r =
     (case birthday r of
        None \<Rightarrow> Inr None
      | Some birthday_date \<Rightarrow>
          (case replace_year birthday_date (year today) of
             Inl e \<Rightarrow> Inl e
           | Inr this_year \<Rightarrow>
               (case (if date_less this_year today
                      then replace_year birthday_date (year today + 1) else Inr this_year) of
                  Inl e \<Rightarrow> Inl e
                | Inr birthday_this_year \<Rightarrow>
                    (let days_until_birthday = int (toordinal birthday_this_year) - int (toordinal today)
                     in if 0 \<le> days_until_birthday \<and> days_until_birthday \<le> 7 then
                          (case (if weekday birthday_this_year \<ge> 5
                                 then date_add birthday_this_year (7 - weekday birthday_this_year)
                                 else Inr birthday_this_year) of
                             Inl e \<Rightarrow> Inl e
                           | Inr congratulation \<Rightarrow>
                               Inr (Some \<lparr>entry_name = name r,
                                          congratulation_date = strftime libc congratulation\<rparr>))
                        else Inr None))))"

fun upcoming_loop :: "libc \<Rightarrow> date \<Rightarrow> Record list \<Rightarrow> entry list \<Rightarrow> error + entry list" where
  "upcoming_loop libc today [] upcoming_birthdays = Inr upcoming_birthdays"
| "upcoming_loop libc today (r # rs) upcoming_birthdays =
     (case upcoming_step libc today r of
        Inl e \<Rightarrow> Inl e
      | Inr None \<Rightarrow> upcoming_loop libc today rs upcoming_birthdays
      | Inr (Some e) \<Rightarrow> upcoming_loop libc today rs (upcoming_birthdays @ [e]))"

definition get_upcoming_birthdays :: "libc \<Rightarrow> date \<Rightarrow> AddressBook \<Rightarrow> error + entry list" where
  \<comment> \<open>\<open>today\<close> is \<open>datetime.today().date()\<close>, the date of the call\<close>
  "get_upcoming_birthdays libc today book = upcoming_loop libc today (map snd book) []"


section \<open>Callers: the states that the public operations reach\<close>

text \<open>
  A caller builds a record with \<open>Record(name)\<close> and calls its methods; it puts records into
  the book, deletes names, and calls the methods of a record it found in the book, which
  changes the record in the book (the book holds the object itself). A call that raises
  leaves whatever state the method had reached.
\<close>

datatype record_op =
    AddPhone string
  | RemovePhone string
  | EditPhone string string
  | AddBirthday string

fun record_call :: "record_op \<Rightarrow> Record \<Rightarrow> (error + unit) \<times> Record" where
  "record_call (AddPhone p) r = add_phone p r"
| "record_call (RemovePhone p) r = remove_phone p r"
| "record_call (EditPhone old new) r = edit_phone old new r"
| "record_call (AddBirthday b) r = add_birthday b r"

inductive reachable_record :: "Record \<Rightarrow> bool" where
  fresh: "reachable_record (Record_init n)"
| call: "reachable_record r \<Longrightarrow> reachable_record (snd (record_call c r))"

definition call_on :: "string \<Rightarrow> record_op \<Rightarrow> AddressBook \<Rightarrow> AddressBook" where
  \<comment> \<open>\<open>book.find(n)\<close>, then a method call on the record found\<close>
  "call_on n c book = map (\<lambda>(k, r). if k = n then (k, snd (record_call c r)) else (k, r)) book"

inductive reachable :: "AddressBook \<Rightarrow> bool" where
  empty: "reachable []"
| add: "reachable book \<Longrightarrow> reachable_record r \<Longrightarrow> reachable (snd (add_record r book))"
| del: "reachable book \<Longrightarrow> reachable (snd (delete n book))"
| on_record: "reachable book \<Longrightarrow> reachable (call_on n c book)"


section \<open>The notions of the specification\<close>

text \<open>
  These definitions follow the words of the specification, not the code; the theorems
  compare the code with them.
\<close>

definition occurrence :: "date \<Rightarrow> nat \<Rightarrow> date" where
  \<comment> \<open>the birthday's month and day in year \<open>y\<close>\<close>
  "occurrence b y = \<lparr>year = y, month = month b, day = day b\<rparr>"

definition next_occurrence :: "date \<Rightarrow> date \<Rightarrow> date" where
  \<comment> \<open>this year's date, or next year's date when this year's is strictly before today\<close>
  "next_occurrence today b =
     (if date_less (occurrence b (year today)) today then occurrence b (year today + 1)
      else occurrence b (year today))"

definition occurs :: "date \<Rightarrow> Record \<Rightarrow> bool" where
  \<comment> \<open>the record has no birthday, or this year's date of its birthday exists and so does
      its next occurrence (a date exists up to the year 9999, and a 29th of February in leap
      years only)\<close>
  "occurs today r \<longleftrightarrow>
     (case birthday r of
        None \<Rightarrow> True
      | Some b \<Rightarrow> valid_date (occurrence b (year today)) \<and> valid_date (next_occurrence today b))"

definition all_occur :: "date \<Rightarrow> AddressBook \<Rightarrow> bool" where
  "all_occur today book \<longleftrightarrow> list_all (occurs today) (map snd book)"

definition days_from :: "date \<Rightarrow> date \<Rightarrow> int" where
  "days_from today d = int (toordinal d) - int (toordinal today)"

definition in_window :: "date \<Rightarrow> Record \<Rightarrow> bool" where
  \<comment> \<open>the record has a birthday whose next occurrence is 0 to 7 days from today\<close>
  "in_window today r =
     (case birthday r of
        None \<Rightarrow> False
      | Some b \<Rightarrow> 0 \<le> days_from today (next_occurrence today b) \<and>
                 days_from today (next_occurrence today b) \<le> 7)"

definition congratulation_day :: "date \<Rightarrow> date" where
  \<comment> \<open>a Saturday moves two days on, a Sunday one day on, a weekday stays\<close>
  "congratulation_day occ =
     (if weekday occ = 5 then add_days occ 2
      else if weekday occ = 6 then add_days occ 1
      else occ)"

definition day_text :: "string \<Rightarrow> bool" where
  \<comment> \<open>one or two of the digits \<open>0\<close>..\<open>9\<close>, or a blank and one of them\<close>
  "day_text d \<longleftrightarrow>
     (case d of
        [a] \<Rightarrow> is_decimal a
      | [a, b] \<Rightarrow> (is_decimal a \<or> a = CHR '' '') \<and> is_decimal b
      | _ \<Rightarrow> False)"

definition month_text :: "string \<Rightarrow> bool" where
  \<comment> \<open>one or two of the digits \<open>0\<close>..\<open>9\<close>\<close>
  "month_text m \<longleftrightarrow>
     (case m of
        [a] \<Rightarrow> is_decimal a
      | [a, b] \<Rightarrow> is_decimal a \<and> is_decimal b
      | _ \<Rightarrow> False)"

definition year_text :: "string \<Rightarrow> bool" where
  \<comment> \<open>exactly four of the digits \<open>0\<close>..\<open>9\<close>\<close>
  "year_text g \<longleftrightarrow> length g = 4 \<and> list_all is_decimal g"

definition padded_date_string :: "string \<Rightarrow> bool" where
  \<comment> \<open>a string DD.MM.YYYY, zero-padded, that names a real calendar date\<close>
  "padded_date_string s \<longleftrightarrow>
     (case s of
        [d1, d2, p, m1, m2, q, y1, y2, y3, y4] \<Rightarrow>
          p = CHR ''.'' \<and> q = CHR ''.'' \<and>
          list_all is_decimal [d1, d2, m1, m2, y1, y2, y3, y4] \<and>
          valid_date \<lparr>year = int_of_digits [y1, y2, y3, y4],
                      month = int_of_digits [m1, m2],
                      day = int_of_digits [d1, d2]\<rparr>
      | _ \<Rightarrow> False)"


section \<open>Auxiliary notions of the proofs\<close>

definition calendar_date :: "date \<Rightarrow> bool" where
  \<comment> \<open>a real calendar date, the year not bounded above\<close>
  "calendar_date d \<longleftrightarrow>
     1 \<le> year d \<and> 1 \<le> month d \<and> month d \<le> 12 \<and>
     1 \<le> day d \<and> day d \<le> days_in_month (year d) (month d)"

definition phones_valid :: "Record \<Rightarrow> bool" where
  "phones_valid r \<longleftrightarrow> list_all validate (phones r)"

definition greets :: "libc \<Rightarrow> date \<Rightarrow> Record \<Rightarrow> entry \<Rightarrow> bool" where
  \<comment> \<open>the loop body appends entry \<open>e\<close> for record \<open>r\<close>\<close>
  "greets libc today r e \<longleftrightarrow> upcoming_step libc today r = Inr (Some e)"

text \<open>
  The strings that the three groups of the regular expression of strptime match, alternative
  by alternative.
\<close>

definition lang1 :: "(char \<Rightarrow> bool) \<Rightarrow> string \<Rightarrow> bool" where
  \<comment> \<open>the strings that \<open>re_seq1 p\<close> matches\<close>
  "lang1 p g \<longleftrightarrow> (case g of [a] \<Rightarrow> p a | _ \<Rightarrow> False)"

definition lang2 :: "(char \<Rightarrow> bool) \<Rightarrow> (char \<Rightarrow> bool) \<Rightarrow> string \<Rightarrow> bool" where
  \<comment> \<open>the strings that \<open>re_seq2 p q\<close> matches\<close>
  "lang2 p q g \<longleftrightarrow> (case g of [a, b] \<Rightarrow> p a \<and> q b | _ \<Rightarrow> False)"

definition day_group :: "string \<Rightarrow> bool" where
  \<comment> \<open>the group \<open>d\<close>: 30 or 31; 1 or 2 and a digit \<open>\d\<close>; 0 and one of 1..9; one of 1..9; a
      blank and one of 1..9\<close>
  "day_group g \<longleftrightarrow>
     lang2 (\<lambda>c. c = CHR ''3'') (\<lambda>c. c = CHR ''0'' \<or> c = CHR ''1'') g \<or>
     lang2 (\<lambda>c. c = CHR ''1'' \<or> c = CHR ''2'') re_digit g \<or>
     lang2 (\<lambda>c. c = CHR ''0'') is_nonzero g \<or>
     lang1 is_nonzero g \<or>
     lang2 (\<lambda>c. c = CHR '' '') is_nonzero g"

definition month_group :: "string \<Rightarrow> bool" where
  \<comment> \<open>the group \<open>m\<close>: 10, 11 or 12; 0 and one of 1..9; one of 1..9\<close>
  "month_group g \<longleftrightarrow>
     lang2 (\<lambda>c. c = CHR ''1'') (\<lambda>c. c = CHR ''0'' \<or> c = CHR ''1'' \<or> c = CHR ''2'') g \<or>
     lang2 (\<lambda>c. c = CHR ''0'') is_nonzero g \<or>
     lang1 is_nonzero g"

definition year_group :: "string \<Rightarrow> bool" where
  \<comment> \<open>the group \<open>Y\<close>: exactly four digits \<open>\d\<close>\<close>
  "year_group g \<longleftrightarrow> length g = 4 \<and> list_all re_digit g"


section \<open>Example data\<close>

definition june_10 :: date where
  \<comment> \<open>Monday, 10.06.2024\<close>
  "june_10 = \<lparr>year = 2024, month = 6, day = 10\<rparr>"

definition example_book :: AddressBook where
  \<comment> \<open>birthdays 5, 7 and 8 days after 10.06.2024, one the day before it, and none\<close>
  "example_book =
     [(''Bob'', \<lparr>name = ''Bob'', phones = [''1234567890''],
                birthday = Some \<lparr>year = 1990, month = 6, day = 15\<rparr>\<rparr>),
      (''Ann'', \<lparr>name = ''Ann'', phones = [],
                birthday = Some \<lparr>year = 1985, month = 6, day = 17\<rparr>\<rparr>),
      (''Eve'', \<lparr>name = ''Eve'', phones = [],
                birthday = Some \<lparr>year = 2000, month = 6, day = 18\<rparr>\<rparr>),
      (''Joe'', \<lparr>name = ''Joe'', phones = [],
                birthday = Some \<lparr>year = 1970, month = 6, day = 9\<rparr>\<rparr>),
      (''Zed'', \<lparr>name = ''Zed'', phones = [''0987654321''], birthday = None\<rparr>)]"

definition leap_book :: AddressBook where
  "leap_book =
     [(''Zed'', \<lparr>name = ''Zed'', phones = [], birthday = None\<rparr>),
      (''Lea'', \<lparr>name = ''Lea'', phones = [],
                birthday = Some \<lparr>year = 2000, month = 2, day = 29\<rparr>\<rparr>)]"

definition march_book :: AddressBook where
  \<comment> \<open>a birthday on the first of March and one on the 29th of February\<close>
  "march_book =
     [(''Bob'', \<lparr>name = ''Bob'', phones = [],
                birthday = Some \<lparr>year = 1990, month = 3, day = 1\<rparr>\<rparr>),
      (''Lea'', \<lparr>name = ''Lea'', phones = [],
                birthday = Some \<lparr>year = 2000, month = 2, day = 29\<rparr>\<rparr>)]"

definition bob :: Record where
  "bob = \<lparr>name = ''Bob'', phones = [''0000000000'', ''1111111111'', ''1111111111''],
          birthday = None\<rparr>"


section \<open>Phone numbers\<close>

text \<open>
  Claim C4, as amended. \<open>Phone.validate\<close> is true exactly for the strings of length 10 whose
  characters are all digits in the sense of \<open>str.isdigit\<close>: the decimal digits and the
  superscript digits (so no sign, no separator, no leading plus). For every other string
  validation is false and the construction of a Phone fails with InvalidPhone. On strings of
  ASCII characters the digits of \<open>str.isdigit\<close> are the decimal digits.
\<close>

theorem validate_digits:
  "validate s = (length s = 10 \<and> list_all isdigit_char s) \<and>
   Phone_init s = (if length s = 10 \<and> list_all isdigit_char s then Inr s else Inl InvalidPhone) \<and>
   (list_all (\<lambda>c. (of_char c :: nat) < 128) s \<longrightarrow>
      validate s = (length s = 10 \<and> list_all is_decimal s))"
proof -
  have v: "validate s = (length s = 10 \<and> list_all isdigit_char s)"
    by (auto simp: validate_def isdigit_def)
  have a: "list_all isdigit_char s = list_all is_decimal s"
    if "list_all (\<lambda>c. (of_char c :: nat) < 128) s"
    using that by (induction s) (auto simp: isdigit_char_def)
  show ?thesis using v a by (auto simp: Phone_init_def)
qed

theorem validate_digits_witness:
  "validate ''0123456789'' \<and> \<not> validate ''+123456789'' \<and> \<not> validate ''123'' \<and>
   Phone_init ''123'' = Inl InvalidPhone \<and> Phone_init ''12 456-789'' = Inl InvalidPhone"
  using validate_digits [of "''0123456789''"] validate_digits [of "''+123456789''"]
    validate_digits [of "''123''"] validate_digits [of "''12 456-789''"]
  by (simp add: is_decimal_def isdigit_char_def)

text \<open>
  The claim as stated (every character a decimal digit) fails: ten times the superscript
  two is a valid phone number.
\<close>

theorem superscript_phone_accepted:
  "validate [CHR 0xB2, CHR 0xB2, CHR 0xB2, CHR 0xB2, CHR 0xB2, CHR 0xB2, CHR 0xB2, CHR 0xB2, CHR 0xB2, CHR 0xB2] \<and>
   \<not> list_all is_decimal [CHR 0xB2, CHR 0xB2, CHR 0xB2, CHR 0xB2, CHR 0xB2, CHR 0xB2, CHR 0xB2, CHR 0xB2, CHR 0xB2, CHR 0xB2] \<and>
   Phone_init [CHR 0xB2, CHR 0xB2, CHR 0xB2, CHR 0xB2, CHR 0xB2, CHR 0xB2, CHR 0xB2, CHR 0xB2, CHR 0xB2, CHR 0xB2]
     = Inr [CHR 0xB2, CHR 0xB2, CHR 0xB2, CHR 0xB2, CHR 0xB2, CHR 0xB2, CHR 0xB2, CHR 0xB2, CHR 0xB2, CHR 0xB2]"
  by (simp add: Phone_init_def validate_def isdigit_def isdigit_char_def is_decimal_def)


section \<open>Editing a phone\<close>

lemma edit_phone_loop_absent:
  "old \<notin> set ps \<Longrightarrow> edit_phone_loop old new ps = (Inl (PhoneNotFound old), ps)"
  by (induction ps) auto

lemma edit_phone_loop_first:
  "i < length ps \<Longrightarrow> ps ! i = old \<Longrightarrow> (\<forall>j<i. ps ! j \<noteq> old) \<Longrightarrow>
   edit_phone_loop old new ps =
     (if validate new then (Inr (), ps[i := new]) else (Inl InvalidPhone, ps))"
proof (induction ps arbitrary: i)
  case Nil
  then show ?case by simp
next
  case (Cons p ps)
  show ?case
  proof (cases i)
    case 0
    with Cons.prems show ?thesis by simp
  next
    case (Suc k)
    with Cons.prems have "p \<noteq> old" by auto
    moreover have "k < length ps" "ps ! k = old" "\<forall>j<k. ps ! j \<noteq> old"
      using Cons.prems Suc by auto
    ultimately show ?thesis using Cons.IH[of k] Suc by simp
  qed
qed

text \<open>
  Claim C6. When the first phone equal to \<open>old\<close> is at index \<open>i\<close>, \<open>edit_phone\<close> with a valid
  new value returns and the record afterwards differs only in that its phone list holds
  the new value at index \<open>i\<close> (a list update: same length, every other position as before);
  with an invalid new value it raises InvalidPhone and the record is as before. When no
  phone equals \<open>old\<close> it raises PhoneNotFound and the record is as before.
\<close>

theorem edit_phone_in_place:
  "(i < length (phones r) \<and> phones r ! i = old \<and> (\<forall>j<i. phones r ! j \<noteq> old) \<longrightarrow>
      edit_phone old new r =
        (if validate new then (Inr (), r\<lparr>phones := (phones r)[i := new]\<rparr>)
         else (Inl InvalidPhone, r))) \<and>
   (old \<notin> set (phones r) \<longrightarrow> edit_phone old new r = (Inl (PhoneNotFound old), r))"
proof (intro conjI impI)
  assume "i < length (phones r) \<and> phones r ! i = old \<and> (\<forall>j<i. phones r ! j \<noteq> old)"
  then have "edit_phone_loop old new (phones r) =
      (if validate new then (Inr (), (phones r)[i := new]) else (Inl InvalidPhone, phones r))"
    by (intro edit_phone_loop_first) auto
  then show "edit_phone old new r =
        (if validate new then (Inr (), r\<lparr>phones := (phones r)[i := new]\<rparr>)
         else (Inl InvalidPhone, r))"
    by (simp add: edit_phone_def)
next
  assume "old \<notin> set (phones r)"
  then show "edit_phone old new r = (Inl (PhoneNotFound old), r)"
    by (simp add: edit_phone_def edit_phone_loop_absent)
qed

theorem edit_phone_in_place_witness:
  "edit_phone ''1111111111'' ''2222222222'' bob
     = (Inr (), bob\<lparr>phones := [''0000000000'', ''2222222222'', ''1111111111'']\<rparr>) \<and>
   edit_phone ''1111111111'' ''22'' bob = (Inl InvalidPhone, bob) \<and>
   edit_phone ''3333333333'' ''2222222222'' bob = (Inl (PhoneNotFound ''3333333333''), bob)"
  using edit_phone_in_place [of 1 bob "''1111111111''" "''2222222222''"]
    edit_phone_in_place [of 1 bob "''1111111111''" "''22''"]
    edit_phone_in_place [of 0 bob "''3333333333''" "''2222222222''"]
  by (simp add: bob_def validate_def isdigit_def isdigit_char_def is_decimal_def)


section \<open>Failing operations\<close>

lemmas strptime_eval =
  strptime_def regex_match_def re_d_def re_m_def re_digit_def is_nonzero_def is_decimal_def py_int_def
  int_of_digits_def digit_val_def date_new_def days_in_month_def is_leap_def

text \<open>
  Claim C7. A failing operation leaves the record as it was: for an invalid phone string
  \<open>add_phone\<close> raises InvalidPhone and the record after the call is the record before it;
  for a string that strptime rejects \<open>add_birthday\<close> raises InvalidBirthday and the record
  after the call is the record before it. More generally, whenever one of the two raises,
  the record is unchanged.
\<close>

theorem failure_keeps_state:
  "(\<not> validate p \<longrightarrow> add_phone p r = (Inl InvalidPhone, r)) \<and>
   (isl (strptime b) \<longrightarrow> add_birthday b r = (Inl InvalidBirthday, r)) \<and>
   (isl (fst (add_phone p r)) \<longrightarrow> snd (add_phone p r) = r) \<and>
   (isl (fst (add_birthday b r)) \<longrightarrow> snd (add_birthday b r) = r)"
  by (auto simp: add_phone_def Phone_init_def add_birthday_def Birthday_init_def isl_def
      split: sum.splits)

theorem failure_keeps_state_witness:
  "add_phone ''123'' bob = (Inl InvalidPhone, bob) \<and>
   add_birthday ''31.02.2000'' bob = (Inl InvalidBirthday, bob)"
  using failure_keeps_state [of "''123''" bob "''31.02.2000''"]
  by (simp add: validate_def strptime_eval)


section \<open>Removals\<close>

lemma map_of_filter_fst:
  "map_of (filter (\<lambda>kv. fst kv \<noteq> n) book) m = (if m = n then None else map_of book m)"
  by (induction book) auto

lemma filter_fst_absent: "n \<notin> fst ` set book \<Longrightarrow> filter (\<lambda>kv. fst kv \<noteq> n) book = book"
  by (induction book) auto

text \<open>
  Claim C8. \<open>delete\<close> never raises: afterwards the name is not in the book, every other name
  is found as before, and when the name was absent the book is unchanged. \<open>remove_phone\<close>
  never raises: it keeps exactly the phones whose value differs from the argument, and when
  no phone has that value the record is unchanged.
\<close>

theorem removal_never_fails:
  "fst (delete n book) = Inr () \<and>
   find_record n (snd (delete n book)) = None \<and>
   (\<forall>m. m \<noteq> n \<longrightarrow> find_record m (snd (delete n book)) = find_record m book) \<and>
   (find_record n book = None \<longrightarrow> delete n book = (Inr (), book)) \<and>
   remove_phone raw r = (Inr (), r\<lparr>phones := filter (\<lambda>p. p \<noteq> raw) (phones r)\<rparr>) \<and>
   (raw \<notin> set (phones r) \<longrightarrow> remove_phone raw r = (Inr (), r))"
proof -
  have 1: "find_record n book = None \<Longrightarrow> n \<notin> fst ` set book"
    by (simp add: find_record_def map_of_eq_None_iff)
  have 2: "raw \<notin> set (phones r) \<Longrightarrow> filter (\<lambda>p. p \<noteq> raw) (phones r) = phones r"
    by (induction "phones r") (auto simp: filter_id_conv)
  show ?thesis
    using 1 2
    by (auto simp: delete_def find_record_def map_of_filter_fst filter_fst_absent remove_phone_def
        map_of_eq_None_iff)
qed

theorem removal_never_fails_witness:
  "delete ''Nobody'' leap_book = (Inr (), leap_book) \<and>
   find_record ''Lea'' (snd (delete ''Lea'' leap_book)) = None \<and>
   find_record ''Zed'' (snd (delete ''Lea'' leap_book)) = find_record ''Zed'' leap_book \<and>
   remove_phone ''5555555555'' bob = (Inr (), bob) \<and>
   remove_phone ''1111111111'' bob = (Inr (), bob\<lparr>phones := [''0000000000'']\<rparr>)"
  using removal_never_fails [of "''Nobody''" leap_book "''5555555555''" bob]
    removal_never_fails [of "''Lea''" leap_book "''1111111111''" bob]
  by (simp add: leap_book_def bob_def find_record_def)


section \<open>The invariant of the stored phones\<close>

lemma edit_phone_loop_valid:
  "list_all validate ps \<Longrightarrow> list_all validate (snd (edit_phone_loop old new ps))"
  by (induction ps) (auto split: prod.splits)

lemma record_call_valid: "phones_valid r \<Longrightarrow> phones_valid (snd (record_call c r))"
proof (cases c)
  case (AddPhone p)
  assume "phones_valid r"
  then show ?thesis using AddPhone
    by (auto simp: phones_valid_def add_phone_def Phone_init_def)
next
  case (RemovePhone p)
  assume "phones_valid r"
  then show ?thesis using RemovePhone
    by (auto simp: phones_valid_def remove_phone_def list_all_iff)
next
  case (EditPhone old new)
  assume "phones_valid r"
  then show ?thesis using EditPhone edit_phone_loop_valid[of "phones r" old new]
    by (auto simp: phones_valid_def edit_phone_def split: prod.splits)
next
  case (AddBirthday b)
  assume "phones_valid r"
  then show ?thesis using AddBirthday
    by (auto simp: phones_valid_def add_birthday_def split: sum.splits)
qed

lemma reachable_record_valid: "reachable_record r \<Longrightarrow> phones_valid r"
  by (induction rule: reachable_record.induct)
     (simp_all add: record_call_valid, simp add: phones_valid_def Record_init_def)

lemma dict_set_valid:
  "list_all (\<lambda>kv. phones_valid (snd kv)) book \<Longrightarrow> phones_valid r \<Longrightarrow>
   list_all (\<lambda>kv. phones_valid (snd kv)) (dict_set k r book)"
  by (induction book) auto

text \<open>
  Claim C9. In every book that the public operations reach (records built by \<open>Record\<close> and
  changed by \<open>add_phone\<close>, \<open>remove_phone\<close>, \<open>edit_phone\<close> and \<open>add_birthday\<close>, whether the call
  returns or raises; books changed by \<open>add_record\<close>, \<open>delete\<close> and by method calls on the
  records in them), every phone of every record satisfies \<open>Phone.validate\<close>.
\<close>

theorem stored_phones_valid:
  "reachable book \<Longrightarrow> list_all (\<lambda>kv. list_all validate (phones (snd kv))) book"
proof -
  assume "reachable book"
  then have "list_all (\<lambda>kv. phones_valid (snd kv)) book"
  proof (induction rule: reachable.induct)
    case empty
    show ?case by simp
  next
    case (add book r)
    then show ?case
      by (simp add: add_record_def dict_set_valid reachable_record_valid)
  next
    case (del book n)
    then show ?case by (auto simp: delete_def list_all_iff)
  next
    case (on_record book n c)
    then show ?case
      by (auto simp: call_on_def list_all_iff record_call_valid)
  qed
  then show ?thesis by (simp add: phones_valid_def)
qed

theorem stored_phones_valid_witness:
  "reachable (call_on ''Bob'' (EditPhone ''1234567890'' ''0987654321'')
      (snd (add_record (snd (record_call (AddPhone ''1234567890'') (Record_init ''Bob''))) []))) \<and>
   list_all (\<lambda>kv. list_all validate (phones (snd kv)))
     (call_on ''Bob'' (EditPhone ''1234567890'' ''0987654321'')
        (snd (add_record (snd (record_call (AddPhone ''1234567890'') (Record_init ''Bob''))) []))) \<and>
   call_on ''Bob'' (EditPhone ''1234567890'' ''0987654321'')
      (snd (add_record (snd (record_call (AddPhone ''1234567890'') (Record_init ''Bob''))) []))
     = [(''Bob'', \<lparr>name = ''Bob'', phones = [''0987654321''], birthday = None\<rparr>)]"
proof -
  have r: "reachable (call_on ''Bob'' (EditPhone ''1234567890'' ''0987654321'')
      (snd (add_record (snd (record_call (AddPhone ''1234567890'') (Record_init ''Bob''))) [])))"
    by (intro reachable.intros reachable_record.intros)
  have v: "validate ''1234567890''" "validate ''0987654321''"
    by (simp_all add: validate_def isdigit_def isdigit_char_def is_decimal_def)
  have "call_on ''Bob'' (EditPhone ''1234567890'' ''0987654321'')
      (snd (add_record (snd (record_call (AddPhone ''1234567890'') (Record_init ''Bob''))) []))
     = [(''Bob'', \<lparr>name = ''Bob'', phones = [''0987654321''], birthday = None\<rparr>)]"
    using v by (simp add: call_on_def add_record_def add_phone_def Phone_init_def Record_init_def
        edit_phone_def)
  with r stored_phones_valid[OF r] show ?thesis by simp
qed


section \<open>The calendar\<close>

text \<open>
  The day after a date has the next ordinal, so the date \<open>k\<close> days later has the ordinal
  \<open>k\<close> higher and the weekday \<open>k\<close> further: the difference of ordinals, which is what the
  subtraction of dates returns, counts calendar days.
\<close>

lemma leap_arith:
  fixes n a b c :: nat
  assumes "b \<le> a"
  shows "365 + n * 365 + a + c - b = n * 365 + a - b + c + 365"
    and "365 + n * 365 + Suc a + c - b = n * 365 + a - b + c + 366"
    and "365 + n * 365 + Suc a + c - Suc b = n * 365 + a - b + c + 365"
    and "365 + n * 365 + Suc a + Suc c - Suc b = n * 365 + a - b + c + 366"
  using assms by linarith+

lemma days_before_year_Suc:
  assumes "1 \<le> y"
  shows "days_before_year (Suc y) = days_before_year y + (if is_leap y then 366 else 365)"
proof -
  obtain n where n: "y = Suc n" using assms by (cases y) auto
  define a b c where "a = n div 4" and "b = n div 100" and "c = n div 400"
  have le: "b \<le> a" unfolding a_def b_def by (rule div_le_mono2) simp_all
  have "(4::nat) dvd 100" "(100::nat) dvd 400" by simp_all
  then have d100: "Suc n mod 100 = 0 \<Longrightarrow> Suc n mod 4 = 0"
    and d400: "Suc n mod 400 = 0 \<Longrightarrow> Suc n mod 100 = 0"
    by (meson dvd_trans mod_eq_0_iff_dvd)+
  define p4 p100 p400 where "p4 \<longleftrightarrow> Suc n mod 4 = 0" and "p100 \<longleftrightarrow> Suc n mod 100 = 0"
    and "p400 \<longleftrightarrow> Suc n mod 400 = 0"
  have imp: "p100 \<longrightarrow> p4" "p400 \<longrightarrow> p100"
    using d100 d400 by (simp_all add: p4_def p100_def p400_def)
  have s4: "Suc n div 4 = (if p4 then Suc a else a)"
    and s100: "Suc n div 100 = (if p100 then Suc b else b)"
    and s400: "Suc n div 400 = (if p400 then Suc c else c)"
    by (simp_all add: div_Suc a_def b_def c_def p4_def p100_def p400_def)
  have lhs: "days_before_year (Suc y) =
      365 + n * 365 + (if p4 then Suc a else a) + (if p400 then Suc c else c) - (if p100 then Suc b else b)"
    unfolding s4[symmetric] s100[symmetric] s400[symmetric]
    by (simp add: days_before_year_def n)
  have rhs: "days_before_year y = n * 365 + a - b + c"
    by (simp add: days_before_year_def n a_def b_def c_def)
  have leap: "is_leap y \<longleftrightarrow> p4 \<and> (\<not> p100 \<or> p400)"
    by (simp add: is_leap_def n p4_def p100_def p400_def)
  show ?thesis
    unfolding lhs rhs leap
    using imp leap_arith[OF le, of n c]
    by (cases p4; cases p100; cases p400) simp_all
qed

lemma days_before_month_numeral:
  "days_before_month y (numeral n) =
     days_before_month y (pred_numeral n) +
       (if pred_numeral n = 0 then 0 else days_in_month y (pred_numeral n))"
  by (cases "pred_numeral n") (auto simp: numeral_eq_Suc)

lemma days_before_month_13:
  "days_before_month y 13 = (if is_leap y then 366 else 365)"
  by (simp add: days_before_month_numeral days_in_month_def)

lemma days_before_month_12:
  "days_before_month y 12 = (if is_leap y then 335 else 334)"
  by (simp add: days_before_month_numeral days_in_month_def)

lemma days_before_month_Suc:
  "1 \<le> m \<Longrightarrow> days_before_month y (Suc m) = days_before_month y m + days_in_month y m"
  by (cases m) simp_all

lemma toordinal_next_day:
  assumes "calendar_date d"
  shows "toordinal (next_day d) = toordinal d + 1"
proof -
  from assms have y: "1 \<le> year d" and m: "1 \<le> month d" "month d \<le> 12"
    and dd: "1 \<le> day d" "day d \<le> days_in_month (year d) (month d)"
    by (simp_all add: calendar_date_def)
  consider (a) "day d < days_in_month (year d) (month d)"
    | (b) "day d = days_in_month (year d) (month d)" "month d < 12"
    | (c) "day d = days_in_month (year d) (month d)" "month d = 12"
    using dd m by linarith
  then show ?thesis
  proof cases
    case a
    then show ?thesis by (simp add: next_day_def toordinal_def)
  next
    case b
    then show ?thesis using m days_before_month_Suc[of "month d" "year d"]
      by (simp add: next_day_def toordinal_def)
  next
    case c
    then show ?thesis using y days_before_year_Suc[of "year d"]
      by (simp add: next_day_def toordinal_def days_before_month_12 days_in_month_def)
  qed
qed

lemma calendar_date_next_day: "calendar_date d \<Longrightarrow> calendar_date (next_day d)"
  by (auto simp: calendar_date_def next_day_def days_in_month_def)

lemma toordinal_add_days:
  "calendar_date d \<Longrightarrow> toordinal (add_days d k) = toordinal d + k"
  by (induction k arbitrary: d) (simp_all add: toordinal_next_day calendar_date_next_day)

lemma weekday_add_days:
  "calendar_date d \<Longrightarrow> weekday (add_days d k) = (weekday d + k) mod 7"
  by (simp add: weekday_def toordinal_add_days mod_simps ac_simps)

lemma replace_year_Inr:
  "replace_year b y = Inr t \<Longrightarrow> t = occurrence b y \<and> calendar_date (occurrence b y) \<and> y \<le> 9999"
  by (auto simp: replace_year_def date_new_def occurrence_def calendar_date_def split: if_splits)

lemma weekday_lt_7: "weekday d < 7"
  by (simp add: weekday_def)

lemma date_add_Inr: "date_add d k = Inr c \<Longrightarrow> c = add_days d k"
  by (auto simp: date_add_def split: if_splits)

lemma congratulation_day_weekday:
  assumes "calendar_date occ"
  shows "weekday (congratulation_day occ) = (if weekday occ < 5 then weekday occ else 0)"
proof -
  have 2: "weekday (add_days occ 2) = (weekday occ + 2) mod 7"
    and 1: "weekday (add_days occ 1) = (weekday occ + 1) mod 7"
    by (rule weekday_add_days[OF assms])+
  have "weekday occ < 7" by (rule weekday_lt_7)
  then consider "weekday occ < 5" | "weekday occ = 5" | "weekday occ = 6" by linarith
  then show ?thesis
  proof cases
    case 1
    then show ?thesis by (simp add: congratulation_day_def)
  next
    case 2
    then show ?thesis using \<open>weekday (add_days occ 2) = (weekday occ + 2) mod 7\<close>
      by (simp add: congratulation_day_def)
  next
    case 3
    then show ?thesis using \<open>weekday (add_days occ 1) = (weekday occ + 1) mod 7\<close>
      by (simp add: congratulation_day_def)
  qed
qed

lemma window_counts_days:
  assumes "calendar_date today" "birthday r = Some b" "next_occurrence today b = add_days today k"
  shows "in_window today r \<longleftrightarrow> k \<le> 7"
  using assms by (simp add: in_window_def days_from_def toordinal_add_days)


section \<open>Evaluation of concrete cases\<close>

lemma digit_char_eval:
  "digit_char 0 = CHR ''0''" "digit_char 1 = CHR ''1''" "digit_char 2 = CHR ''2''"
  "digit_char 3 = CHR ''3''" "digit_char 4 = CHR ''4''" "digit_char 5 = CHR ''5''"
  "digit_char 6 = CHR ''6''" "digit_char 7 = CHR ''7''" "digit_char 8 = CHR ''8''"
  "digit_char 9 = CHR ''9''" "digit_char (Suc 0) = CHR ''1''"
  by (simp_all add: digit_char_def char_of_def bit_Suc_0_iff)

lemma add_days_numeral: "add_days d (numeral n) = add_days (next_day d) (pred_numeral n)"
  by (simp add: numeral_eq_Suc)

lemmas date_eval =
  toordinal_def days_before_year_def days_before_month_numeral days_in_month_def is_leap_def
  weekday_def date_less_def date_new_def replace_year_def next_day_def date_add_def
  MAXORDINAL_def add_days_numeral

lemmas strftime_eval =
  strftime_def format_Y_def pad2_def pad4_def decimal.simps digit_char_eval

lemma example_run:
  "get_upcoming_birthdays Plain_Year june_10 example_book =
     Inr [\<lparr>entry_name = ''Bob'', congratulation_date = ''17.06.2024''\<rparr>,
          \<lparr>entry_name = ''Ann'', congratulation_date = ''17.06.2024''\<rparr>]"
  by (simp add: get_upcoming_birthdays_def upcoming_step_def june_10_def example_book_def
      date_eval strftime_eval)


section \<open>Upcoming birthdays\<close>

lemma shift_is_congratulation_day:
  assumes "(if weekday occ \<ge> 5 then date_add occ (7 - weekday occ) else Inr occ) = Inr c"
  shows "c = congratulation_day occ"
proof -
  have "weekday occ < 7" by (rule weekday_lt_7)
  then consider "weekday occ < 5" | "weekday occ = 5" | "weekday occ = 6" by linarith
  then show ?thesis
    using assms by cases (auto simp: congratulation_day_def dest: date_add_Inr)
qed

lemma occurrence_step:
  assumes "replace_year b (year today) = Inr t"
    and "(if date_less t today then replace_year b (year today + 1) else Inr t) = Inr occ"
  shows "occ = next_occurrence today b \<and> calendar_date occ"
proof -
  have t: "t = occurrence b (year today)" "calendar_date t"
    using replace_year_Inr[OF assms(1)] by blast+
  show ?thesis
  proof (cases "date_less t today")
    case True
    with assms(2) have "replace_year b (year today + 1) = Inr occ" by simp
    from replace_year_Inr[OF this] True t show ?thesis by (simp add: next_occurrence_def)
  next
    case False
    with assms(2) t show ?thesis by (simp add: next_occurrence_def)
  qed
qed

lemma upcoming_step_Some:
  assumes "birthday r = Some b" and "upcoming_step libc today r = Inr res"
  shows "calendar_date (next_occurrence today b) \<and>
         res = (if 0 \<le> days_from today (next_occurrence today b) \<and>
                   days_from today (next_occurrence today b) \<le> 7
                then Some \<lparr>entry_name = name r,
                       congratulation_date = strftime libc (congratulation_day (next_occurrence today b))\<rparr>
                else None)"
proof -
  from assms obtain t where t: "replace_year b (year today) = Inr t"
    by (auto simp: upcoming_step_def split: sum.splits)
  from assms t obtain occ where
    occ: "(if date_less t today then replace_year b (year today + 1) else Inr t) = Inr occ"
    by (auto simp: upcoming_step_def split: sum.splits)
  have o: "occ = next_occurrence today b" "calendar_date occ"
    using occurrence_step[OF t occ] by blast+
  show ?thesis
  proof (cases "0 \<le> days_from today occ \<and> days_from today occ \<le> 7")
    case False
    with assms t occ have "res = None"
      by (auto simp: upcoming_step_def days_from_def Let_def)
    with False o show ?thesis by simp
  next
    case True
    with assms t occ obtain c where
      c: "(if weekday occ \<ge> 5 then date_add occ (7 - weekday occ) else Inr occ) = Inr c"
      and res: "res = Some \<lparr>entry_name = name r, congratulation_date = strftime libc c\<rparr>"
      by (auto simp: upcoming_step_def days_from_def Let_def split: sum.splits)
    from shift_is_congratulation_day[OF c] res True o show ?thesis by simp
  qed
qed

lemma upcoming_step_Inr:
  assumes "upcoming_step libc today r = Inr res"
  shows "(case res of None \<Rightarrow> \<not> in_window today r | Some e \<Rightarrow> in_window today r)"
proof (cases "birthday r")
  case None
  with assms show ?thesis by (simp add: upcoming_step_def in_window_def)
next
  case (Some b)
  from upcoming_step_Some[OF Some assms] Some show ?thesis
    by (simp add: in_window_def)
qed

lemma upcoming_step_entry:
  assumes "upcoming_step libc today r = Inr (Some e)"
  shows "\<exists>b. birthday r = Some b \<and> calendar_date (next_occurrence today b) \<and>
             e = \<lparr>entry_name = name r,
                  congratulation_date = strftime libc (congratulation_day (next_occurrence today b))\<rparr>"
proof (cases "birthday r")
  case None
  with assms show ?thesis by (simp add: upcoming_step_def)
next
  case (Some b)
  from upcoming_step_Some[OF Some assms] Some show ?thesis
    by (auto split: if_splits)
qed

lemma upcoming_loop_Inr:
  "upcoming_loop libc today rs acc = Inr out \<Longrightarrow>
   \<exists>es. out = acc @ es \<and> list_all2 (greets libc today) (filter (in_window today) rs) es"
proof (induction rs arbitrary: acc)
  case Nil
  then show ?case by simp
next
  case (Cons r rs)
  show ?case
  proof (cases "upcoming_step libc today r")
    case (Inl e)
    with Cons.prems show ?thesis by simp
  next
    case (Inr res)
    show ?thesis
    proof (cases res)
      case None
      with Inr Cons.prems have "upcoming_loop libc today rs acc = Inr out" by simp
      moreover have "\<not> in_window today r" using upcoming_step_Inr[OF Inr] None by simp
      ultimately show ?thesis using Cons.IH by simp
    next
      case (Some e)
      with Inr Cons.prems have "upcoming_loop libc today rs (acc @ [e]) = Inr out" by simp
      then obtain es where es: "out = (acc @ [e]) @ es"
        "list_all2 (greets libc today) (filter (in_window today) rs) es"
        using Cons.IH by blast
      moreover have "in_window today r" using upcoming_step_Inr[OF Inr] Some by simp
      moreover have "greets libc today r e" using Inr Some by (simp add: greets_def)
      ultimately show ?thesis by simp
    qed
  qed
qed

lemma get_upcoming_birthdays_Inr:
  "get_upcoming_birthdays libc today book = Inr out \<Longrightarrow>
   list_all2 (greets libc today) (filter (in_window today) (map snd book)) out"
  using upcoming_loop_Inr[of libc today "map snd book" "[]" out]
  by (auto simp: get_upcoming_birthdays_def)

lemma upcoming_loop_raises:
  "r \<in> set rs \<Longrightarrow> isl (upcoming_step libc today r) \<Longrightarrow> isl (upcoming_loop libc today rs acc)"
proof (induction rs arbitrary: acc)
  case Nil
  then show ?case by simp
next
  case (Cons x xs)
  show ?case
  proof (cases "upcoming_step libc today x")
    case (Inl e)
    then show ?thesis by simp
  next
    case (Inr res)
    with Cons.prems have "r \<in> set xs" by auto
    with Cons.IH Cons.prems(2) Inr show ?thesis by (cases res) simp_all
  qed
qed

lemma days_before_year_mono:
  assumes "y \<le> z" "1 \<le> y"
  shows "days_before_year y \<le> days_before_year z"
  using assms
proof (induction rule: dec_induct)
  case base
  show ?case by simp
next
  case (step n)
  then show ?case using days_before_year_Suc[of n] by simp
qed

lemma days_before_year_10000: "days_before_year 10000 = 3652059"
  by (simp add: days_before_year_def)

lemma days_before_month_mono:
  assumes "m \<le> n" "1 \<le> m"
  shows "days_before_month y m \<le> days_before_month y n"
  using assms
proof (induction rule: dec_induct)
  case base
  show ?case by simp
next
  case (step k)
  then show ?case using days_before_month_Suc[of k y] by simp
qed

lemma toordinal_le_MAXORDINAL:
  assumes "valid_date d"
  shows "toordinal d \<le> MAXORDINAL"
proof -
  from assms have y: "1 \<le> year d" "year d \<le> 9999" and m: "1 \<le> month d" "month d \<le> 12"
    and dd: "day d \<le> days_in_month (year d) (month d)"
    by (simp_all add: valid_date_def)
  have "days_before_month (year d) (month d) + day d \<le> days_before_month (year d) (Suc (month d))"
    using dd m days_before_month_Suc[of "month d" "year d"] by simp
  also have "\<dots> \<le> days_before_month (year d) 13"
    using m by (intro days_before_month_mono) simp_all
  finally have "toordinal d \<le> days_before_year (year d) + (if is_leap (year d) then 366 else 365)"
    by (simp add: toordinal_def days_before_month_13)
  also have "\<dots> = days_before_year (Suc (year d))"
    using y by (simp add: days_before_year_Suc)
  also have "\<dots> \<le> days_before_year 10000"
    using y by (intro days_before_year_mono) simp_all
  finally show ?thesis by (simp add: days_before_year_10000 MAXORDINAL_def)
qed

lemma weekend_before_last_day:
  fixes n :: nat
  assumes "n \<le> 3652059" "5 \<le> (n + 6) mod 7"
  shows "n + (7 - (n + 6) mod 7) \<le> 3652059"
proof (rule ccontr)
  assume "\<not> n + (7 - (n + 6) mod 7) \<le> 3652059"
  then have "n = 3652058 \<or> n = 3652059" using assms by linarith
  then show False using assms(2) by auto
qed

lemma date_add_weekend:
  assumes "valid_date occ" "5 \<le> weekday occ"
  shows "date_add occ (7 - weekday occ) = Inr (add_days occ (7 - weekday occ))"
  using toordinal_le_MAXORDINAL[OF assms(1)] assms(2)
    weekend_before_last_day[of "toordinal occ"]
  by (simp add: date_add_def weekday_def MAXORDINAL_def)

lemma replace_year_iff:
  "replace_year b y = (if valid_date (occurrence b y) then Inr (occurrence b y) else Inl LibValueError)"
  by (auto simp: replace_year_def date_new_def valid_date_def occurrence_def)

lemma upcoming_step_total:
  assumes "birthday r = Some b"
  shows "upcoming_step libc today r =
     (if valid_date (occurrence b (year today)) \<and> valid_date (next_occurrence today b)
      then Inr (if 0 \<le> days_from today (next_occurrence today b) \<and>
                   days_from today (next_occurrence today b) \<le> 7
                then Some \<lparr>entry_name = name r,
                       congratulation_date =
                         strftime libc (congratulation_day (next_occurrence today b))\<rparr>
                else None)
      else Inl LibValueError)"
proof (cases "valid_date (occurrence b (year today))")
  case False
  then show ?thesis using assms by (simp add: upcoming_step_def replace_year_iff)
next
  case this_year: True
  show ?thesis
  proof (cases "valid_date (next_occurrence today b)")
    case False
    then have "date_less (occurrence b (year today)) today"
      "\<not> valid_date (occurrence b (year today + 1))"
      using this_year by (auto simp: next_occurrence_def split: if_splits)
    then show ?thesis using assms this_year False
      by (simp add: upcoming_step_def replace_year_iff)
  next
    case True
    define occ where "occ = next_occurrence today b"
    have sel: "(if date_less (occurrence b (year today)) today
                then replace_year b (year today + 1) else Inr (occurrence b (year today))) = Inr occ"
      using True this_year unfolding occ_def next_occurrence_def
      by (auto simp: replace_year_iff)
    have shift: "(if weekday occ \<ge> 5 then date_add occ (7 - weekday occ) else Inr occ) =
        Inr (congratulation_day occ)"
    proof -
      have "weekday occ < 7" by (simp add: weekday_def)
      then consider "weekday occ < 5" | "weekday occ = 5" | "weekday occ = 6" by linarith
      then show ?thesis
        using date_add_weekend[of occ] True
        by cases (auto simp: congratulation_day_def occ_def)
    qed
    show ?thesis
      using assms this_year True sel shift
      by (simp add: upcoming_step_def replace_year_iff days_from_def Let_def occ_def[symmetric])
  qed
qed

lemma upcoming_step_occurs:
  assumes "occurs today r"
  shows "\<exists>res. upcoming_step libc today r = Inr res \<and>
           (case res of None \<Rightarrow> \<not> in_window today r
            | Some e \<Rightarrow> in_window today r \<and> entry_name e = name r)"
proof (cases "birthday r")
  case None
  then show ?thesis by (simp add: upcoming_step_def in_window_def)
next
  case (Some b)
  with assms have "valid_date (occurrence b (year today)) \<and> valid_date (next_occurrence today b)"
    by (simp add: occurs_def)
  then show ?thesis
    using upcoming_step_total[OF Some, of libc today] Some
    by (simp add: in_window_def)
qed

lemma upcoming_step_not_occurs:
  assumes "\<not> occurs today r"
  shows "upcoming_step libc today r = Inl LibValueError"
proof (cases "birthday r")
  case None
  with assms show ?thesis by (simp add: occurs_def)
next
  case (Some b)
  with assms have "\<not> (valid_date (occurrence b (year today)) \<and> valid_date (next_occurrence today b))"
    by (simp add: occurs_def)
  then show ?thesis using upcoming_step_total[OF Some, of libc today] by simp
qed

lemma upcoming_loop_total:
  "list_all (occurs today) rs \<Longrightarrow>
   \<exists>es. upcoming_loop libc today rs acc = Inr (acc @ es) \<and>
        map entry_name es = map name (filter (in_window today) rs)"
proof (induction rs arbitrary: acc)
  case Nil
  then show ?case by simp
next
  case (Cons r rs)
  then have r: "occurs today r" and rs: "list_all (occurs today) rs" by simp_all
  from upcoming_step_occurs[OF r, of libc] obtain res where
    res: "upcoming_step libc today r = Inr res"
      "(case res of None \<Rightarrow> \<not> in_window today r
        | Some e \<Rightarrow> in_window today r \<and> entry_name e = name r)"
    by blast
  show ?case
  proof (cases res)
    case None
    from Cons.IH[OF rs, of acc] obtain es where
      "upcoming_loop libc today rs acc = Inr (acc @ es)"
      "map entry_name es = map name (filter (in_window today) rs)" by blast
    then show ?thesis using res None by simp
  next
    case (Some e)
    from Cons.IH[OF rs, of "acc @ [e]"] obtain es where
      "upcoming_loop libc today rs (acc @ [e]) = Inr ((acc @ [e]) @ es)"
      "map entry_name es = map name (filter (in_window today) rs)" by blast
    then have "upcoming_loop libc today (r # rs) acc = Inr (acc @ (e # es)) \<and>
        map entry_name (e # es) = map name (filter (in_window today) (r # rs))"
      using res Some by simp
    then show ?thesis by blast
  qed
qed

lemmas occur_eval = all_occur_def occurs_def occurrence_def next_occurrence_def valid_date_def
  date_less_def days_in_month_def is_leap_def

text \<open>
  Claim C1, as amended. Whenever every record of the book with a birthday has an
  occurrence, that is, this year's date of the birthday exists and so does the next
  occurrence (this year's date, or next year's date when this year's is strictly before
  today), \<open>get_upcoming_birthdays\<close> returns, and the names it lists are, in the order of the
  book, the names of exactly the records that have a birthday whose next occurrence is 0
  to 7 days from today: a record with a birthday is included iff that number of days is
  between 0 and 7 inclusive. By \<open>window_counts_days\<close> the number of days counts calendar
  days, so the occurrence 7 days after today is included and the one 8 days after today
  is not. Whenever some record has no such occurrence, the call raises and lists nothing.
\<close>

theorem upcoming_window:
  "(all_occur today book \<longrightarrow>
      (\<exists>out. get_upcoming_birthdays libc today book = Inr out \<and>
         map entry_name out = map name (filter (in_window today) (map snd book)))) \<and>
   (\<not> all_occur today book \<longrightarrow> isl (get_upcoming_birthdays libc today book))"
proof (intro conjI impI)
  assume "all_occur today book"
  then have "list_all (occurs today) (map snd book)" by (simp add: all_occur_def)
  from upcoming_loop_total[OF this, of libc "[]"]
  show "\<exists>out. get_upcoming_birthdays libc today book = Inr out \<and>
         map entry_name out = map name (filter (in_window today) (map snd book))"
    by (simp add: get_upcoming_birthdays_def)
next
  assume "\<not> all_occur today book"
  then obtain r where r: "r \<in> set (map snd book)" "\<not> occurs today r"
    by (auto simp: all_occur_def list_all_iff)
  from upcoming_step_not_occurs[OF r(2), of libc] have "isl (upcoming_step libc today r)" by simp
  from upcoming_loop_raises[OF r(1) this]
  show "isl (get_upcoming_birthdays libc today book)"
    by (simp add: get_upcoming_birthdays_def)
qed

theorem upcoming_window_witness:
  "all_occur june_10 example_book \<and>
   get_upcoming_birthdays Plain_Year june_10 example_book =
     Inr [\<lparr>entry_name = ''Bob'', congratulation_date = ''17.06.2024''\<rparr>,
          \<lparr>entry_name = ''Ann'', congratulation_date = ''17.06.2024''\<rparr>] \<and>
   map name (filter (in_window june_10) (map snd example_book)) = [''Bob'', ''Ann''] \<and>
   \<not> all_occur \<lparr>year = 2023, month = 2, day = 27\<rparr> march_book \<and>
   isl (get_upcoming_birthdays Plain_Year \<lparr>year = 2023, month = 2, day = 27\<rparr> march_book)"
proof -
  have a: "all_occur june_10 example_book"
    by (simp add: occur_eval june_10_def example_book_def)
  have b: "\<not> all_occur \<lparr>year = 2023, month = 2, day = 27\<rparr> march_book"
    by (simp add: occur_eval march_book_def)
  from upcoming_window [of june_10 example_book Plain_Year]
    upcoming_window [of "\<lparr>year = 2023, month = 2, day = 27\<rparr>" march_book Plain_Year]
    a b example_run
  show ?thesis by simp
qed

text \<open>
  The claim as stated (every record with a birthday is included iff its next occurrence is
  0 to 7 days away) fails where the call raises: on 27.02.2023 the birthday of the first of
  March is two days away, and the birthday of the 29th of February in the same book makes
  the call raise, so that nothing is listed.
\<close>

theorem raise_drops_upcoming_birthday:
  "in_window \<lparr>year = 2023, month = 2, day = 27\<rparr>
     \<lparr>name = ''Bob'', phones = [], birthday = Some \<lparr>year = 1990, month = 3, day = 1\<rparr>\<rparr> \<and>
   days_from \<lparr>year = 2023, month = 2, day = 27\<rparr>
     (next_occurrence \<lparr>year = 2023, month = 2, day = 27\<rparr> \<lparr>year = 1990, month = 3, day = 1\<rparr>) = 2 \<and>
   get_upcoming_birthdays Plain_Year \<lparr>year = 2023, month = 2, day = 27\<rparr> march_book
     = Inl LibValueError"
  by (simp add: in_window_def days_from_def next_occurrence_def occurrence_def
      get_upcoming_birthdays_def upcoming_step_def march_book_def date_eval strftime_eval)

text \<open>
  Claim C2. When \<open>get_upcoming_birthdays\<close> returns, the entry of every included record holds
  the formatted congratulation day of the birthday's next occurrence: the occurrence itself
  on a weekday, the date two days later on a Saturday, the date one day later on a Sunday.
  The weekday of that day is the occurrence's own from Monday to Friday and Monday
  otherwise, so it is never a Saturday or a Sunday.
\<close>

theorem weekend_shift:
  assumes "get_upcoming_birthdays libc today book = Inr out"
  shows "list_all2
           (\<lambda>r e. \<exists>b. birthday r = Some b \<and>
                congratulation_date e = strftime libc (congratulation_day (next_occurrence today b)) \<and>
                weekday (congratulation_day (next_occurrence today b)) =
                  (if weekday (next_occurrence today b) < 5 then weekday (next_occurrence today b)
                   else 0) \<and>
                weekday (congratulation_day (next_occurrence today b)) < 5)
           (filter (in_window today) (map snd book)) out"
  using get_upcoming_birthdays_Inr[OF assms]
  by (rule list_all2_mono)
     (auto simp: greets_def congratulation_day_weekday dest!: upcoming_step_entry)

theorem weekend_shift_witness:
  "get_upcoming_birthdays Plain_Year june_10 example_book =
     Inr [\<lparr>entry_name = ''Bob'', congratulation_date = ''17.06.2024''\<rparr>,
          \<lparr>entry_name = ''Ann'', congratulation_date = ''17.06.2024''\<rparr>] \<and>
   weekday \<lparr>year = 2024, month = 6, day = 15\<rparr> = 5 \<and>
   congratulation_day \<lparr>year = 2024, month = 6, day = 15\<rparr> = \<lparr>year = 2024, month = 6, day = 17\<rparr> \<and>
   list_all2
     (\<lambda>r e. \<exists>b. birthday r = Some b \<and>
          congratulation_date e = strftime Plain_Year (congratulation_day (next_occurrence june_10 b)) \<and>
          weekday (congratulation_day (next_occurrence june_10 b)) =
            (if weekday (next_occurrence june_10 b) < 5 then weekday (next_occurrence june_10 b)
             else 0) \<and>
          weekday (congratulation_day (next_occurrence june_10 b)) < 5)
     (filter (in_window june_10) (map snd example_book))
     [\<lparr>entry_name = ''Bob'', congratulation_date = ''17.06.2024''\<rparr>,
      \<lparr>entry_name = ''Ann'', congratulation_date = ''17.06.2024''\<rparr>]"
proof -
  have "weekday \<lparr>year = 2024, month = 6, day = 15\<rparr> = 5"
    by (simp add: date_eval)
  moreover from this have
    "congratulation_day \<lparr>year = 2024, month = 6, day = 15\<rparr> = \<lparr>year = 2024, month = 6, day = 17\<rparr>"
    by (simp add: congratulation_day_def add_days_numeral next_day_def days_in_month_def)
  ultimately show ?thesis
    using weekend_shift [OF example_run] example_run by simp
qed


section \<open>A birthday on the 29th of February\<close>

lemma leap_day_step:
  assumes "birthday r = Some b" "month b = 2" "day b = 29"
    and "\<not> is_leap (year today) \<or>
         (date_less (occurrence b (year today)) today \<and> \<not> is_leap (year today + 1))"
  shows "upcoming_step libc today r = Inl LibValueError"
proof (cases "replace_year b (year today)")
  case (Inl e)
  then have "e = LibValueError"
    by (auto simp: replace_year_def date_new_def split: if_splits)
  with Inl assms(1) show ?thesis by (simp add: upcoming_step_def)
next
  case (Inr t)
  then have leap: "is_leap (year today)"
    using assms(2,3) by (auto simp: replace_year_def date_new_def days_in_month_def split: if_splits)
  have t: "t = occurrence b (year today)" using replace_year_Inr[OF Inr] by blast
  from leap assms(4) have less: "date_less t today" and nl: "\<not> is_leap (year today + 1)"
    using t by auto
  have "replace_year b (year today + 1) = Inl LibValueError"
    using nl assms(2,3) by (simp add: replace_year_def date_new_def days_in_month_def)
  with Inr less assms(1) show ?thesis by (simp add: upcoming_step_def)
qed

text \<open>
  Claim C10. \<open>get_upcoming_birthdays\<close> is not total. Whenever the book holds a record whose
  birthday is a 29th of February and either the year of today is not a leap year, or this
  year's 29th of February is before today and the following year is not a leap year, the
  replacement of the year fails and the call raises instead of returning a list.
\<close>

theorem leap_day_birthday_raises:
  assumes "r \<in> snd ` set book" "birthday r = Some b" "month b = 2" "day b = 29"
    and "\<not> is_leap (year today) \<or>
         (date_less (occurrence b (year today)) today \<and> \<not> is_leap (year today + 1))"
  shows "isl (get_upcoming_birthdays libc today book)"
  unfolding get_upcoming_birthdays_def
  using assms(1) leap_day_step[OF assms(2-5)]
  by (intro upcoming_loop_raises[of r]) simp_all

theorem leap_day_birthday_raises_witness:
  "isl (get_upcoming_birthdays Plain_Year \<lparr>year = 2023, month = 2, day = 27\<rparr> leap_book) \<and>
   isl (get_upcoming_birthdays Plain_Year \<lparr>year = 2024, month = 3, day = 1\<rparr> leap_book)"
  using
    leap_day_birthday_raises [of "\<lparr>name = ''Lea'', phones = [],
        birthday = Some \<lparr>year = 2000, month = 2, day = 29\<rparr>\<rparr>" leap_book
      "\<lparr>year = 2000, month = 2, day = 29\<rparr>" "\<lparr>year = 2023, month = 2, day = 27\<rparr>" Plain_Year]
    leap_day_birthday_raises [of "\<lparr>name = ''Lea'', phones = [],
        birthday = Some \<lparr>year = 2000, month = 2, day = 29\<rparr>\<rparr>" leap_book
      "\<lparr>year = 2000, month = 2, day = 29\<rparr>" "\<lparr>year = 2024, month = 3, day = 1\<rparr>" Plain_Year]
  by (simp add: leap_book_def is_leap_def date_less_def occurrence_def)


section \<open>Accepted birthday strings\<close>

lemma lang1_iff: "lang1 p g \<longleftrightarrow> (\<exists>a. g = [a] \<and> p a)"
  by (auto simp: lang1_def split: list.splits)

lemma lang2_iff: "lang2 p q g \<longleftrightarrow> (\<exists>a b. g = [a, b] \<and> p a \<and> q b)"
  by (auto simp: lang2_def split: list.splits)

lemma re_seq2_mem:
  "(g, r) \<in> set (re_seq2 p q s) \<longleftrightarrow> s = g @ r \<and> lang2 p q g"
  unfolding lang2_iff by (induction p q s rule: re_seq2.induct) auto

lemma re_seq1_mem:
  "(g, r) \<in> set (re_seq1 p s) \<longleftrightarrow> s = g @ r \<and> lang1 p g"
  unfolding lang1_iff by (induction p s rule: re_seq1.induct) auto

lemma length_4_iff: "length g = 4 \<longleftrightarrow> (\<exists>a b c d. g = [a, b, c, d])"
proof
  assume "length g = 4"
  then have "length g = Suc (Suc (Suc (Suc 0)))" by simp
  then show "\<exists>a b c d. g = [a, b, c, d]" by (auto simp: length_Suc_conv)
qed auto

lemma year_text_cases:
  "year_text g \<longleftrightarrow>
     (\<exists>a b c d. g = [a, b, c, d] \<and> is_decimal a \<and> is_decimal b \<and> is_decimal c \<and> is_decimal d)"
  unfolding year_text_def length_4_iff by auto

lemma re_Y_mem:
  "(g, r) \<in> set (re_Y s) \<longleftrightarrow> s = g @ r \<and> year_text g"
  unfolding year_text_cases
  by (induction s rule: re_Y.induct) (auto simp: re_digit_def)

lemma re_dot_mem: "r \<in> set (re_dot s) \<longleftrightarrow> s = CHR ''.'' # r"
  by (induction s rule: re_dot.induct) auto

lemma re_d_mem: "(g, r) \<in> set (re_d s) \<longleftrightarrow> s = g @ r \<and> day_group g"
  unfolding re_d_def day_group_def set_append Un_iff re_seq2_mem re_seq1_mem
  by blast

lemma re_m_mem: "(g, r) \<in> set (re_m s) \<longleftrightarrow> s = g @ r \<and> month_group g"
  unfolding re_m_def month_group_def set_append Un_iff re_seq2_mem re_seq1_mem
  by blast

lemma concat_map_intro: "a \<in> set xs \<Longrightarrow> x \<in> set (f a) \<Longrightarrow> x \<in> set (concat (map f xs))"
  by auto

lemma regex_match_intro:
  assumes "(d, r1) \<in> set (re_d s)" "r2 \<in> set (re_dot r1)" "(m, r3) \<in> set (re_m r2)"
    "r4 \<in> set (re_dot r3)" "(y, rest) \<in> set (re_Y r4)"
  shows "(d, m, y, rest) \<in> set (regex_match s)"
proof -
  have 5: "(d, m, y, rest) \<in> set [(d, m, y, rest). (y, rest) \<leftarrow> re_Y r4]"
    using assms(5) by force
  have 4: "(d, m, y, rest) \<in> set [(d, m, y, rest). r4 \<leftarrow> re_dot r3, (y, rest) \<leftarrow> re_Y r4]"
    by (rule concat_map_intro[OF assms(4)]) (rule 5)
  have 3: "(d, m, y, rest) \<in>
      set [(d, m, y, rest). (m, r3) \<leftarrow> re_m r2, r4 \<leftarrow> re_dot r3, (y, rest) \<leftarrow> re_Y r4]"
    by (rule concat_map_intro[OF assms(3)], simp only: split_conv, rule 4)
  have 2: "(d, m, y, rest) \<in>
      set [(d, m, y, rest). r2 \<leftarrow> re_dot r1, (m, r3) \<leftarrow> re_m r2, r4 \<leftarrow> re_dot r3,
             (y, rest) \<leftarrow> re_Y r4]"
    by (rule concat_map_intro[OF assms(2)]) (rule 3)
  show ?thesis
    unfolding regex_match_def
    by (rule concat_map_intro[OF assms(1)], simp only: split_conv, rule 2)
qed

lemma regex_match_elim:
  assumes "x \<in> set (regex_match s)"
  obtains d r1 r2 m r3 r4 y rest where
    "(d, r1) \<in> set (re_d s)" "r2 \<in> set (re_dot r1)" "(m, r3) \<in> set (re_m r2)"
    "r4 \<in> set (re_dot r3)" "(y, rest) \<in> set (re_Y r4)" "x = (d, m, y, rest)"
  using assms unfolding regex_match_def by fastforce

lemma regex_match_mem:
  "(d, m, y, rest) \<in> set (regex_match s) \<longleftrightarrow>
     s = d @ ''.'' @ m @ ''.'' @ y @ rest \<and> day_group d \<and> month_group m \<and> year_text y"
  (is "?L \<longleftrightarrow> ?R")
proof
  assume ?L
  then show ?R
    by (elim regex_match_elim) (simp add: re_d_mem re_dot_mem re_m_mem re_Y_mem)
next
  assume ?R
  then show ?L
    by (intro regex_match_intro[where ?r1.0 = "''.'' @ m @ ''.'' @ y @ rest" and ?r2.0 = "m @ ''.'' @ y @ rest"
          and ?r3.0 = "''.'' @ y @ rest" and ?r4.0 = "y @ rest"])
       (simp_all add: re_d_mem re_dot_mem re_m_mem re_Y_mem)
qed

lemma char_eq_nat: "c = d \<longleftrightarrow> (of_char c :: nat) = of_char d"
  by (simp add: of_char_eq_iff)

lemmas char_nat = char_eq_nat is_decimal_def is_nonzero_def digit_val_def

lemma day_group_dot_free: "day_group g \<Longrightarrow> CHR ''.'' \<notin> set g"
  by (auto simp: day_group_def lang1_iff lang2_iff re_digit_def is_decimal_def is_nonzero_def)

lemma month_group_dot_free: "month_group g \<Longrightarrow> CHR ''.'' \<notin> set g"
  by (auto simp: month_group_def lang1_iff lang2_iff is_decimal_def is_nonzero_def)

lemma split_unique:
  "a @ c # x = a' @ c # x' \<Longrightarrow> c \<notin> set a \<Longrightarrow> c \<notin> set a' \<Longrightarrow> a = a' \<and> x = x'"
proof (induction a arbitrary: a')
  case Nil
  then show ?case by (cases a') auto
next
  case (Cons h t)
  then show ?case by (cases a') auto
qed

lemma regex_match_unique:
  assumes "(d, m, y, rest) \<in> set (regex_match s)" "(d', m', y', rest') \<in> set (regex_match s)"
  shows "d = d' \<and> m = m' \<and> y = y' \<and> rest = rest'"
proof -
  from assms have s: "s = d @ CHR ''.'' # (m @ CHR ''.'' # (y @ rest))"
    "s = d' @ CHR ''.'' # (m' @ CHR ''.'' # (y' @ rest'))"
    and g: "day_group d" "day_group d'" "month_group m" "month_group m'" "year_text y" "year_text y'"
    by (simp_all add: regex_match_mem)
  have 1: "d = d' \<and> m @ CHR ''.'' # (y @ rest) = m' @ CHR ''.'' # (y' @ rest')"
    using s g(1,2) by (intro split_unique[of d "CHR ''.''"]) (simp_all add: day_group_dot_free)
  then have 2: "m = m' \<and> y @ rest = y' @ rest'"
    using g(3,4) by (intro split_unique[of m "CHR ''.''"]) (simp_all add: month_group_dot_free)
  moreover have "length y = length y'" using g(5,6) by (simp add: year_text_def)
  ultimately show ?thesis using 1 by simp
qed

lemma regex_match_first:
  assumes "(d, m, y, rest) \<in> set (regex_match s)"
  shows "\<exists>xs. regex_match s = (d, m, y, rest) # xs"
proof (cases "regex_match s")
  case Nil
  with assms show ?thesis by simp
next
  case (Cons x xs)
  obtain d' m' y' rest' where x: "x = (d', m', y', rest')" by (cases x) auto
  then have "(d', m', y', rest') \<in> set (regex_match s)" using Cons by simp
  from regex_match_unique[OF assms this] x Cons show ?thesis by simp
qed

lemma strptime_Inr_iff:
  "strptime s = Inr dt \<longleftrightarrow>
     (\<exists>d m y. s = d @ ''.'' @ m @ ''.'' @ y \<and> day_group d \<and> month_group m \<and> year_text y \<and>
        date_new (py_int y) (py_int m) (py_int d) = Inr dt)"
  (is "?L \<longleftrightarrow> ?R")
proof
  assume L: ?L
  then obtain d m y rest xs where m: "regex_match s = (d, m, y, rest) # xs"
    by (cases "regex_match s") (auto simp: strptime_def)
  then have "(d, m, y, rest) \<in> set (regex_match s)" by simp
  moreover from L m have "rest = []" "date_new (py_int y) (py_int m) (py_int d) = Inr dt"
    by (auto simp: strptime_def split: if_splits)
  ultimately show ?R by (auto simp: regex_match_mem)
next
  assume ?R
  then obtain d m y where h: "s = d @ ''.'' @ m @ ''.'' @ y" "day_group d" "month_group m"
    "year_text y" "date_new (py_int y) (py_int m) (py_int d) = Inr dt" by blast
  then have "(d, m, y, []) \<in> set (regex_match s)" by (simp add: regex_match_mem)
  from regex_match_first[OF this] h(5) show ?L by (auto simp: strptime_def)
qed

lemma strptime_error: "strptime s = Inl e \<Longrightarrow> e = LibValueError"
  by (auto simp: strptime_def date_new_def split: list.splits if_splits)

lemma decimal_not_blank: "is_decimal a \<Longrightarrow> a \<noteq> CHR '' ''"
  by (auto simp: is_decimal_def)

lemma nonzero_decimal: "is_nonzero a \<longleftrightarrow> is_decimal a \<and> 1 \<le> digit_val a"
  by (auto simp: is_decimal_def is_nonzero_def digit_val_def)

lemma digit_val_less: "is_decimal a \<Longrightarrow> digit_val a < 10"
  by (auto simp: is_decimal_def digit_val_def)

lemma py_int_1: "a \<noteq> CHR '' '' \<Longrightarrow> py_int [a] = digit_val a"
  by (simp add: py_int_def int_of_digits_def)

lemma py_int_2: "a \<noteq> CHR '' '' \<Longrightarrow> py_int [a, b] = 10 * digit_val a + digit_val b"
  by (simp add: py_int_def int_of_digits_def)

lemma py_int_blank: "b \<noteq> CHR '' '' \<Longrightarrow> py_int [CHR '' '', b] = digit_val b"
  by (simp add: py_int_def int_of_digits_def)

lemma py_int_4:
  "a \<noteq> CHR '' '' \<Longrightarrow>
   py_int [a, b, c, d] = 1000 * digit_val a + 100 * digit_val b + 10 * digit_val c + digit_val d"
  by (simp add: py_int_def int_of_digits_def)

lemma digit_is:
  "is_decimal c \<Longrightarrow> c = CHR ''0'' \<longleftrightarrow> digit_val c = 0"
  "is_decimal c \<Longrightarrow> c = CHR ''1'' \<longleftrightarrow> digit_val c = 1"
  "is_decimal c \<Longrightarrow> c = CHR ''2'' \<longleftrightarrow> digit_val c = 2"
  "is_decimal c \<Longrightarrow> c = CHR ''3'' \<longleftrightarrow> digit_val c = 3"
  by (auto simp: char_nat)

lemma day_group_iff:
  "day_group d \<longleftrightarrow> day_text d \<and> 1 \<le> py_int d \<and> py_int d \<le> 31"
proof (cases d)
  case Nil
  then show ?thesis by (simp add: day_group_def re_digit_def lang1_def lang2_def day_text_def)
next
  case (Cons a t)
  note d1 = this
  show ?thesis
  proof (cases t)
    case Nil
    then show ?thesis using d1 digit_val_less[of a]
      by (auto simp: day_group_def re_digit_def lang1_def lang2_def day_text_def nonzero_decimal py_int_1
          decimal_not_blank)
  next
    case (Cons b u)
    note d2 = this
    show ?thesis
    proof (cases u)
      case Nil
      have dec: "is_decimal b \<Longrightarrow> digit_val b < 10" by (rule digit_val_less)
      show ?thesis
      proof (cases "a = CHR '' ''")
        case True
        then show ?thesis using d1 d2 Nil dec
          by (auto simp: day_group_def re_digit_def lang1_def lang2_def day_text_def nonzero_decimal
              py_int_blank decimal_not_blank)
      next
        case False
        show ?thesis
        proof (cases "is_decimal a \<and> is_decimal b")
          case True
          then have va: "digit_val a < 10" and vb: "digit_val b < 10"
            by (simp_all add: digit_val_less)
          show ?thesis using d1 d2 Nil True False va vb
            by (simp add: day_group_def re_digit_def lang1_def lang2_def day_text_def nonzero_decimal
                py_int_2 digit_is) arith
        next
          case nd: False
          then show ?thesis using d1 d2 Nil False
            by (auto simp: day_group_def re_digit_def lang1_def lang2_def day_text_def nonzero_decimal
                is_decimal_def)
        qed
      qed
    next
      case (Cons c v)
      then show ?thesis using d1 d2
        by (simp add: day_group_def re_digit_def lang1_def lang2_def day_text_def)
    qed
  qed
qed

lemma month_group_iff:
  "month_group m \<longleftrightarrow> month_text m \<and> 1 \<le> py_int m \<and> py_int m \<le> 12"
proof (cases m)
  case Nil
  then show ?thesis by (simp add: month_group_def lang1_def lang2_def month_text_def)
next
  case (Cons a t)
  note d1 = this
  show ?thesis
  proof (cases t)
    case Nil
    then show ?thesis using d1 digit_val_less[of a]
      by (auto simp: month_group_def lang1_def lang2_def month_text_def nonzero_decimal py_int_1
          decimal_not_blank)
  next
    case (Cons b u)
    note d2 = this
    show ?thesis
    proof (cases u)
      case Nil
      show ?thesis
      proof (cases "is_decimal a \<and> is_decimal b")
        case True
        then have va: "digit_val a < 10" and vb: "digit_val b < 10"
          by (simp_all add: digit_val_less)
        have "a \<noteq> CHR '' ''" using True by (simp add: decimal_not_blank)
        then show ?thesis using d1 d2 Nil True va vb
          by (simp add: month_group_def lang1_def lang2_def month_text_def nonzero_decimal
              py_int_2 digit_is) arith
      next
        case nd: False
        then show ?thesis using d1 d2 Nil
          by (auto simp: month_group_def lang1_def lang2_def month_text_def nonzero_decimal
              is_decimal_def)
      qed
    next
      case (Cons c v)
      then show ?thesis using d1 d2
        by (simp add: month_group_def lang1_def lang2_def month_text_def)
    qed
  qed
qed

lemma days_in_month_le: "days_in_month y m \<le> 31"
  by (simp add: days_in_month_def)

lemma date_new_Inr_iff:
  "date_new y m d = Inr dt \<longleftrightarrow> dt = \<lparr>year = y, month = m, day = d\<rparr> \<and> valid_date dt"
  by (auto simp: date_new_def valid_date_def)

lemma padded_date_stringE:
  assumes "padded_date_string s"
  obtains d1 d2 m1 m2 y1 y2 y3 y4 where
    "s = [d1, d2, CHR ''.'', m1, m2, CHR ''.'', y1, y2, y3, y4]"
    "is_decimal d1" "is_decimal d2" "is_decimal m1" "is_decimal m2"
    "is_decimal y1" "is_decimal y2" "is_decimal y3" "is_decimal y4"
    "valid_date \<lparr>year = int_of_digits [y1, y2, y3, y4],
                 month = int_of_digits [m1, m2],
                 day = int_of_digits [d1, d2]\<rparr>"
  using assms unfolding padded_date_string_def
  by (auto split: list.splits)

lemma digit_char_val: "is_decimal c \<Longrightarrow> digit_char (digit_val c) = c"
  by (simp add: is_decimal_def digit_char_def digit_val_def)

lemma pad2_digits:
  "is_decimal a \<Longrightarrow> is_decimal b \<Longrightarrow> pad2 (10 * digit_val a + digit_val b) = [a, b]"
  using digit_val_less[of a] digit_val_less[of b]
  by (simp add: pad2_def digit_char_val)

lemma decimal_split:
  fixes k x :: nat
  assumes "x < 10"
  shows "(10 * k + x) div 10 = k" "(10 * k + x) mod 10 = x"
  using assms by simp_all

lemma four_digits:
  fixes a b c d :: nat
  assumes "a < 10" "b < 10" "c < 10" "d < 10"
  defines "n \<equiv> 1000 * a + 100 * b + 10 * c + d"
  shows "n div 1000 mod 10 = a" "n div 100 mod 10 = b" "n div 10 mod 10 = c" "n mod 10 = d"
proof -
  have n: "n = 10 * (10 * (10 * a + b) + c) + d" by (simp add: n_def)
  have 1: "n div 10 = 10 * (10 * a + b) + c" and m0: "n mod 10 = d"
    unfolding n using assms(4) by (simp_all only: decimal_split)
  have "n div 100 = n div 10 div 10" by (simp add: div_mult2_eq)
  then have 2: "n div 100 = 10 * a + b" unfolding 1 using assms(3) by (simp only: decimal_split)
  have "n div 1000 = n div 100 div 10" by (simp add: div_mult2_eq)
  then have 3: "n div 1000 = a" unfolding 2 using assms(2) by (simp only: decimal_split)
  show "n div 1000 mod 10 = a" unfolding 3 using assms(1) by simp
  show "n div 100 mod 10 = b" unfolding 2 using assms(2) by (simp only: decimal_split)
  show "n div 10 mod 10 = c" unfolding 1 using assms(3) by (simp only: decimal_split)
  show "n mod 10 = d" by (rule m0)
qed

lemma pad4_digits:
  assumes "is_decimal a" "is_decimal b" "is_decimal c" "is_decimal d"
  shows "pad4 (1000 * digit_val a + 100 * digit_val b + 10 * digit_val c + digit_val d) = [a, b, c, d]"
  unfolding pad4_def
  using four_digits[of "digit_val a" "digit_val b" "digit_val c" "digit_val d"] assms
  by (simp add: digit_val_less digit_char_val)

lemma Birthday_init_Inr_iff:
  "Birthday_init s = Inr dt \<longleftrightarrow>
     (\<exists>d m y. s = d @ ''.'' @ m @ ''.'' @ y \<and> day_text d \<and> month_text m \<and> year_text y \<and>
        dt = \<lparr>year = py_int y, month = py_int m, day = py_int d\<rparr> \<and> valid_date dt)"
proof -
  have "Birthday_init s = Inr dt \<longleftrightarrow> strptime s = Inr dt"
    by (auto simp: Birthday_init_def split: sum.splits)
  also have "\<dots> \<longleftrightarrow>
     (\<exists>d m y. s = d @ ''.'' @ m @ ''.'' @ y \<and> day_text d \<and> month_text m \<and> year_text y \<and>
        dt = \<lparr>year = py_int y, month = py_int m, day = py_int d\<rparr> \<and> valid_date dt)"
  proof -
    have "day_text d \<and> month_text m \<and> year_text y \<and>
            dt = \<lparr>year = py_int y, month = py_int m, day = py_int d\<rparr> \<and> valid_date dt \<longleftrightarrow>
          day_group d \<and> month_group m \<and> year_text y \<and>
            date_new (py_int y) (py_int m) (py_int d) = Inr dt" for d m y
      using days_in_month_le[of "py_int y" "py_int m"]
      unfolding day_group_iff month_group_iff date_new_Inr_iff
      by (auto simp: valid_date_def)
    then show ?thesis unfolding strptime_Inr_iff by simp
  qed
  finally show ?thesis .
qed

lemma Birthday_init_Inl: "isl (Birthday_init s) = (Birthday_init s = Inl InvalidBirthday)"
  by (auto simp: Birthday_init_def split: sum.splits)

lemma year_group_eq: "year_group g = year_text g"
proof -
  have "re_digit = is_decimal" by (rule ext) (simp add: re_digit_def)
  then show ?thesis by (simp add: year_group_def year_text_def)
qed

text \<open>
  Claim C3, as amended. The construction of a Birthday accepts exactly the strings made of
  a day, a dot, a month, a dot and a year, and nothing else, where the day is 30 or 31, or
  1 or 2 followed by a digit, or 0 followed by one of 1..9, or one of 1..9 alone or after a
  blank, the month is 10, 11 or 12, or 0 followed by one of 1..9, or one of 1..9 alone, and
  the year is exactly four digits (a digit being a character of the class \<open>\d\<close>), and where
  the numbers that \<open>int\<close> reads from the three name a real calendar date; the accepted
  string gives that date. Zero padding of the day and the month is therefore optional.
  For every other string, malformed or naming no calendar date, the construction fails with
  InvalidBirthday, and \<open>add_birthday\<close> leaves the record as it was.
\<close>

theorem birthday_accepts:
  "(Birthday_init s = Inr dt \<longleftrightarrow>
     (\<exists>d m y. s = d @ ''.'' @ m @ ''.'' @ y \<and> day_group d \<and> month_group m \<and> year_group y \<and>
        dt = \<lparr>year = py_int y, month = py_int m, day = py_int d\<rparr> \<and> valid_date dt)) \<and>
   isl (Birthday_init s) = (Birthday_init s = Inl InvalidBirthday) \<and>
   (isl (Birthday_init s) \<longrightarrow> add_birthday s r = (Inl InvalidBirthday, r))"
proof -
  have "Birthday_init s = Inr dt \<longleftrightarrow> strptime s = Inr dt"
    by (auto simp: Birthday_init_def split: sum.splits)
  then have 1: "Birthday_init s = Inr dt \<longleftrightarrow>
     (\<exists>d m y. s = d @ ''.'' @ m @ ''.'' @ y \<and> day_group d \<and> month_group m \<and> year_group y \<and>
        dt = \<lparr>year = py_int y, month = py_int m, day = py_int d\<rparr> \<and> valid_date dt)"
    unfolding strptime_Inr_iff date_new_Inr_iff year_group_eq by simp
  have 2: "isl (Birthday_init s) \<longrightarrow> add_birthday s r = (Inl InvalidBirthday, r)"
    by (auto simp: add_birthday_def Birthday_init_def split: sum.splits)
  from 1 2 Birthday_init_Inl[of s] show ?thesis by blast
qed

theorem birthday_accepts_witness:
  "Birthday_init ''31.02.2000'' = Inl InvalidBirthday \<and>
   add_birthday ''31.02.2000'' bob = (Inl InvalidBirthday, bob) \<and>
   Birthday_init ''05-06-1990'' = Inl InvalidBirthday \<and>
   Birthday_init ''05.06.1990'' = Inr \<lparr>year = 1990, month = 6, day = 5\<rparr>"
  using birthday_accepts [of "''31.02.2000''" "\<lparr>year = 2000, month = 2, day = 31\<rparr>" bob]
    birthday_accepts [of "''05-06-1990''" "\<lparr>year = 1990, month = 6, day = 5\<rparr>" bob]
    birthday_accepts [of "''05.06.1990''" "\<lparr>year = 1990, month = 6, day = 5\<rparr>" bob]
  by (simp add: Birthday_init_def strptime_eval)

text \<open>
  The claim as stated (only zero-padded strings are accepted) fails: the string 5.6.1990 is
  not of the form DD.MM.YYYY and is accepted.
\<close>

theorem unpadded_birthday_accepted:
  "\<not> padded_date_string ''5.6.1990'' \<and>
   Birthday_init ''5.6.1990'' = Inr \<lparr>year = 1990, month = 6, day = 5\<rparr> \<and>
   Birthday_init '' 5.06.1990'' = Inr \<lparr>year = 1990, month = 6, day = 5\<rparr>"
  by (simp add: padded_date_string_def Birthday_init_def strptime_eval)


section \<open>Parsing and formatting a birthday\<close>

lemma decimal_four: "1000 \<le> n \<Longrightarrow> n \<le> 9999 \<Longrightarrow> decimal n = pad4 n"
proof -
  assume n: "1000 \<le> n" "n \<le> 9999"
  define a b c where "a = n div 10" and "b = n div 100" and "c = n div 1000"
  have ab: "a div 10 = b" "b div 10 = c"
    by (simp_all add: a_def b_def c_def div_mult2_eq)
  have r: "\<not> n < 10" "\<not> a < 10" "\<not> b < 10" "c < 10"
    using n by (simp_all add: a_def b_def c_def)
  have "decimal c = [digit_char c]" using r by (simp add: decimal.simps[of c])
  then have "decimal b = [digit_char c, digit_char (b mod 10)]"
    using r ab by (simp add: decimal.simps[of b])
  then have "decimal a = [digit_char c, digit_char (b mod 10), digit_char (a mod 10)]"
    using r ab by (simp add: decimal.simps[of a])
  then have "decimal n = [digit_char c, digit_char (b mod 10), digit_char (a mod 10), digit_char (n mod 10)]"
    using r by (simp add: decimal.simps[of n] a_def[symmetric])
  moreover have "pad4 n = [digit_char c, digit_char (b mod 10), digit_char (a mod 10), digit_char (n mod 10)]"
    using r by (simp add: pad4_def a_def b_def c_def)
  ultimately show ?thesis by simp
qed

lemma decimal_short: "n < 1000 \<Longrightarrow> length (decimal n) \<le> 3"
proof -
  assume n: "n < 1000"
  have 1: "n div 10 div 10 = n div 100" by (simp add: div_mult2_eq)
  have "n div 100 < 10" using n by simp
  then show ?thesis
    by (simp add: decimal.simps[of n] decimal.simps[of "n div 10"] decimal.simps[of "n div 100"] 1)
qed

text \<open>
  Claim C5, as amended. Every zero-padded string DD.MM.YYYY that names a real calendar date
  is accepted by the construction of a Birthday, and rendering the Birthday gives the
  string back exactly when the year is at least 1000 or the platform's \<open>%Y\<close> fills the year
  with zeros.
\<close>

theorem birthday_round_trip:
  assumes "padded_date_string s"
  shows "\<exists>b. Birthday_init s = Inr b \<and>
             (Birthday_str libc b = s \<longleftrightarrow> libc = Filled_Year \<or> 1000 \<le> year b)"
proof -
  from assms obtain d1 d2 m1 m2 y1 y2 y3 y4 where
    s: "s = [d1, d2, CHR ''.'', m1, m2, CHR ''.'', y1, y2, y3, y4]"
    and dec: "is_decimal d1" "is_decimal d2" "is_decimal m1" "is_decimal m2"
      "is_decimal y1" "is_decimal y2" "is_decimal y3" "is_decimal y4"
    and v: "valid_date \<lparr>year = int_of_digits [y1, y2, y3, y4],
                 month = int_of_digits [m1, m2],
                 day = int_of_digits [d1, d2]\<rparr>"
    by (rule padded_date_stringE)
  define b where "b = \<lparr>year = py_int [y1, y2, y3, y4], month = py_int [m1, m2], day = py_int [d1, d2]\<rparr>"
  have nb: "d1 \<noteq> CHR '' ''" "m1 \<noteq> CHR '' ''" "y1 \<noteq> CHR '' ''"
    using dec by (simp_all add: decimal_not_blank)
  have vals: "py_int [y1, y2, y3, y4] = int_of_digits [y1, y2, y3, y4]"
    "py_int [m1, m2] = int_of_digits [m1, m2]" "py_int [d1, d2] = int_of_digits [d1, d2]"
    using nb by (simp_all add: py_int_def)
  have "s = [d1, d2] @ ''.'' @ [m1, m2] @ ''.'' @ [y1, y2, y3, y4]" by (simp add: s)
  moreover have "day_text [d1, d2]" "month_text [m1, m2]" "year_text [y1, y2, y3, y4]"
    using dec by (simp_all add: day_text_def month_text_def year_text_def)
  moreover have vb: "valid_date b" using v by (simp add: b_def vals)
  ultimately have init: "Birthday_init s = Inr b"
    unfolding Birthday_init_Inr_iff b_def by blast
  have filled: "pad2 (day b) @ ''.'' @ pad2 (month b) @ ''.'' @ pad4 (year b) = s"
    using dec nb unfolding b_def s
    by (simp add: py_int_2 py_int_4 pad2_digits pad4_digits)
  have "Birthday_str libc b = s \<longleftrightarrow> libc = Filled_Year \<or> 1000 \<le> year b"
  proof (cases "libc = Filled_Year \<or> 1000 \<le> year b")
    case True
    have "year b \<le> 9999" using vb by (simp add: valid_date_def)
    then have "format_Y libc (year b) = pad4 (year b)"
      using True by (cases libc) (simp_all add: format_Y_def decimal_four)
    with filled True show ?thesis by (simp add: Birthday_str_def strftime_def)
  next
    case False
    then have "libc = Plain_Year" "year b < 1000" by (cases libc; simp)+
    then have "length (format_Y libc (year b)) \<le> 3"
      by (simp add: format_Y_def decimal_short)
    then have "length (Birthday_str libc b) \<noteq> length s"
      by (simp add: Birthday_str_def strftime_def pad2_def s)
    with False show ?thesis by auto
  qed
  with init show ?thesis by blast
qed

theorem birthday_round_trip_witness:
  "padded_date_string ''05.06.1990'' \<and>
   Birthday_init ''05.06.1990'' = Inr \<lparr>year = 1990, month = 6, day = 5\<rparr> \<and>
   Birthday_str Plain_Year \<lparr>year = 1990, month = 6, day = 5\<rparr> = ''05.06.1990''"
proof -
  have p: "padded_date_string ''05.06.1990''"
    by (simp add: padded_date_string_def is_decimal_def valid_date_def int_of_digits_def
        digit_val_def days_in_month_def)
  have i: "Birthday_init ''05.06.1990'' = Inr \<lparr>year = 1990, month = 6, day = 5\<rparr>"
    by (simp add: Birthday_init_def strptime_eval)
  from birthday_round_trip [OF p, of Plain_Year] p i show ?thesis by simp
qed

text \<open>
  The claim as stated fails where \<open>%Y\<close> does not fill the year with zeros: the string
  01.01.0999 is parsed to the first of January 999 and rendered as 01.01.999.
\<close>

theorem early_year_not_round_trip:
  "padded_date_string ''01.01.0999'' \<and>
   Birthday_init ''01.01.0999'' = Inr \<lparr>year = 999, month = 1, day = 1\<rparr> \<and>
   Birthday_str Plain_Year \<lparr>year = 999, month = 1, day = 1\<rparr> = ''01.01.999''"
  by (simp add: padded_date_string_def valid_date_def Birthday_init_def strptime_eval
      Birthday_str_def strftime_eval)

end
